theory Spec2Isabelle
  imports Complex_Main "HOL-Library.Word"
begin

section \<open>JavaScript strings\<close>

text \<open>
  A JavaScript string is a sequence of UTF-16 code units. \<open>length\<close>, indexing,
  \<open>includes\<close>, \<open>split\<close> and \<open>trim\<close> all work on code units.
\<close>

type_synonym code_unit = "16 word"
type_synonym jsstring = "code_unit list"

text \<open>An ASCII literal of the source, as code units.\<close>

definition utf16 :: "string \<Rightarrow> jsstring" where
  "utf16 s = map (\<lambda>c. of_nat (of_char c)) s"

text \<open>
  \<open>String.prototype.trim\<close> strips WhiteSpace and LineTerminator code points
  (ECMAScript: TAB, LF, VT, FF, CR, SP, NBSP, the Zs category, LS, PS, BOM) from both ends.
\<close>

definition isWhiteSpace :: "code_unit \<Rightarrow> bool" where
  "isWhiteSpace c \<longleftrightarrow>
     c \<in> {0x09, 0x0A, 0x0B, 0x0C, 0x0D, 0x20, 0xA0, 0x1680, 0x2028, 0x2029,
          0x202F, 0x205F, 0x3000, 0xFEFF} \<or> (0x2000 \<le> c \<and> c \<le> 0x200A)"

definition trim :: "jsstring \<Rightarrow> jsstring" where
  "trim s = rev (dropWhile isWhiteSpace (rev (dropWhile isWhiteSpace s)))"

text \<open>\<open>s.split(sep)\<close> for a separator of one code unit: never the empty list.\<close>

fun split :: "code_unit \<Rightarrow> jsstring \<Rightarrow> jsstring list" where
  "split sep [] = [[]]"
| "split sep (c # cs) =
     (if c = sep then [] # split sep cs
      else (case split sep cs of
              [] \<Rightarrow> [[c]]
            | p # ps \<Rightarrow> (c # p) # ps))"

text \<open>\<open>t.includes(k)\<close>: \<open>k\<close> occurs in \<open>t\<close> as a contiguous run of code units.\<close>

definition startsWith :: "jsstring \<Rightarrow> jsstring \<Rightarrow> bool" where
  "startsWith t k \<longleftrightarrow> take (length k) t = k"

fun string_includes :: "jsstring \<Rightarrow> jsstring \<Rightarrow> bool" where
  "string_includes [] k = (k = [])"
| "string_includes (c # cs) k = (startsWith (c # cs) k \<or> string_includes cs k)"

text \<open>Decimal printing of a non-negative integer, as a template literal does.\<close>

fun digits10 :: "nat \<Rightarrow> jsstring" where
  "digits10 n = (if n < 10 then [of_nat (48 + n)] else digits10 (n div 10) @ [of_nat (48 + n mod 10)])"

declare digits10.simps [simp del]

definition number_toString :: "nat \<Rightarrow> jsstring" where
  "number_toString n = digits10 n"

section \<open>The platform\<close>

text \<open>
  Functions of the JavaScript runtime and of the \<open>opencc-js\<close> library that the
  extension calls but does not define. They are parameters of the model: every theorem
  holds for whatever these functions compute.
\<close>

datatype error_name = Error | TypeError | SyntaxError

datatype js_error = JsError (err_name: error_name) (err_message: jsstring)

fun error_name_string :: "error_name \<Rightarrow> jsstring" where
  "error_name_string Error = utf16 ''Error''"
| "error_name_string TypeError = utf16 ''TypeError''"
| "error_name_string SyntaxError = utf16 ''SyntaxError''"

text \<open>\<open>String(error)\<close> of an Error object: its name, then \<open>: message\<close> when there is one.\<close>

definition error_toString :: "js_error \<Rightarrow> jsstring" where
  "error_toString e =
     (if err_message e = [] then error_name_string (err_name e)
      else error_name_string (err_name e) @ utf16 '': '' @ err_message e)"

text \<open>
  A value that \<open>JSON.parse\<close> can return. A number is a finite double (a rational) or,
  on overflow, an infinity. An object lists its own properties, each key once.
\<close>

datatype js_number = Finite rat | PosInfinity | NegInfinity

datatype json =
    JNull
  | JBool bool
  | JNumber js_number
  | JString jsstring
  | JArray "json list"
  | JObject "(jsstring \<times> json) list"

record platform =
  toLowerCase :: "jsstring \<Rightarrow> jsstring"
  converterS2T :: "jsstring \<Rightarrow> jsstring"
  converterT2S :: "jsstring \<Rightarrow> jsstring"
  JSON_parse :: "jsstring \<Rightarrow> js_error + json"

section \<open>background.ts: the keyword layer\<close>

text \<open>
  \<^verbatim>\<open>if (!keywordsString.trim()) return [];
  return keywordsString.split(',').map(k => k.trim().toLowerCase()).filter(k => k.length > 0);\<close>
\<close>

definition parseKeywords :: "platform \<Rightarrow> jsstring \<Rightarrow> jsstring list" where
  "parseKeywords P keywordsString =
     (if trim keywordsString = [] then []
      else filter (\<lambda>k. length k > 0)
             (map (\<lambda>k. toLowerCase P (trim k)) (split 0x2C keywordsString)))"

text \<open>The \<open>for (const keyword of keywords)\<close> loop: the first keyword included wins.\<close>

fun keyword_loop :: "jsstring \<Rightarrow> jsstring list \<Rightarrow> jsstring option" where
  "keyword_loop lowerText [] = None"
| "keyword_loop lowerText (keyword # rest) =
     (if string_includes lowerText keyword then Some keyword
      else keyword_loop lowerText rest)"

definition checkKeywordMatch :: "platform \<Rightarrow> jsstring \<Rightarrow> jsstring list \<Rightarrow> jsstring option" where
  "checkKeywordMatch P text keywords =
     (if length keywords = 0 then None
      else let lowerText = toLowerCase P text in keyword_loop lowerText keywords)"

section \<open>background.ts: the Simplified Chinese layer\<close>

text \<open>The character class of \<open>text.match\<close>: one code unit from U+4E00 to U+9FFF.\<close>

definition isChineseChar :: "code_unit \<Rightarrow> bool" where
  "isChineseChar c \<longleftrightarrow> 0x4E00 \<le> c \<and> c \<le> 0x9FFF"

text \<open>
  \<open>[...text]\<close> iterates by code point: a high surrogate followed by a low surrogate is
  one element of two code units, every other code unit is an element of its own.
\<close>

definition isHighSurrogate :: "code_unit \<Rightarrow> bool" where
  "isHighSurrogate c \<longleftrightarrow> 0xD800 \<le> c \<and> c \<le> 0xDBFF"

definition isLowSurrogate :: "code_unit \<Rightarrow> bool" where
  "isLowSurrogate c \<longleftrightarrow> 0xDC00 \<le> c \<and> c \<le> 0xDFFF"

fun spread :: "jsstring \<Rightarrow> jsstring list" where
  "spread [] = []"
| "spread [c] = [[c]]"
| "spread (c # d # cs) =
     (if isHighSurrogate c \<and> isLowSurrogate d then [c, d] # spread cs
      else [c] # spread (d # cs))"

text \<open>\<open>s[i]\<close>: the code unit at index \<open>i\<close> as a string, \<open>undefined\<close> out of range.\<close>

definition charAt :: "jsstring \<Rightarrow> nat \<Rightarrow> jsstring option" where
  "charAt s i = (if i < length s then Some [s ! i] else None)"

text \<open>\<open>[...text].filter((c, i) => c !== converted[i]).length\<close>\<close>

definition diffCount :: "jsstring \<Rightarrow> jsstring \<Rightarrow> nat" where
  "diffCount text converted =
     length (filter (\<lambda>(i, c). Some c \<noteq> charAt converted i) (enumerate 0 (spread text)))"

definition isSimplifiedChinese :: "platform \<Rightarrow> jsstring \<Rightarrow> bool" where
  "isSimplifiedChinese P text =
     (let chineseChars = filter isChineseChar text in
      if chineseChars = [] \<or> length chineseChars < 3 then False
      else
        let s2t = converterS2T P text;
            t2s = converterT2S P text;
            s2tDiff = diffCount text s2t;
            t2sDiff = diffCount text t2s
        in s2tDiff > t2sDiff \<and> s2tDiff > 0)"

text \<open>
  The detector in the specification's words: the positions of the text in the CJK range, and
  the positions at which the text and a conversion differ character by character, that is
  the characters (code points) of both compared at the same index; a character of the text
  that has no counterpart in the conversion differs.
\<close>

definition cjkPositions :: "jsstring \<Rightarrow> nat set" where
  "cjkPositions text = {i. i < length text \<and> 0x4E00 \<le> text ! i \<and> text ! i \<le> 0x9FFF}"

definition differingPositions :: "jsstring \<Rightarrow> jsstring \<Rightarrow> nat set" where
  "differingPositions text converted =
     {i. i < length (spread text)
         \<and> \<not> (i < length (spread converted) \<and> spread converted ! i = spread text ! i)}"

definition isSimplifiedChinese_spec :: "platform \<Rightarrow> jsstring \<Rightarrow> bool" where
  "isSimplifiedChinese_spec P text \<longleftrightarrow>
     3 \<le> card (cjkPositions text)
     \<and> card (differingPositions text (converterS2T P text))
         > card (differingPositions text (converterT2S P text))
     \<and> card (differingPositions text (converterS2T P text)) \<noteq> 0"

section \<open>background.ts: the AI layer\<close>

text \<open>
  The settings of \<open>types.ts\<close>, with the flag \<open>background.ts\<close> reads for the Chinese layer.
  The field \<open>keywords\<close> is \<open>keywords_str\<close> here.
\<close>

record Settings =
  keywordFilterEnabled :: bool
  keywords_str :: jsstring
  simplifiedChineseFilterEnabled :: bool
  aiFilterEnabled :: bool
  groqApiKey :: jsstring
  selectedModel :: jsstring
  filterDescription :: jsstring
  allowReveal :: bool
  enabledDomains :: "jsstring list"

text \<open>
  \<open>DEFAULT_SETTINGS\<close> of \<open>types.ts\<close>. It has no \<open>simplifiedChineseFilterEnabled\<close>
  property: reading it gives \<open>undefined\<close>, which the \<open>if\<close> of \<open>analyzeText\<close> takes as false.
\<close>

definition DEFAULT_SETTINGS :: Settings where
  "DEFAULT_SETTINGS = \<lparr>
     keywordFilterEnabled = True,
     keywords_str = [],
     simplifiedChineseFilterEnabled = False,
     aiFilterEnabled = True,
     groqApiKey = [],
     selectedModel = utf16 ''llama-3.3-70b-versatile'',
     filterDescription = utf16 ''content I want to avoid'',
     allowReveal = True,
     enabledDomains = map utf16 [''twitter.com'', ''x.com'', ''reddit.com'', ''www.reddit.com'',
       ''instagram.com'', ''www.instagram.com'', ''facebook.com'', ''www.facebook.com''] \<rparr>"

datatype matched_by = By_keyword | By_simplified_chinese | By_ai | By_none

text \<open>The string literal the source writes into \<open>matched_by\<close>.\<close>

fun matched_by_literal :: "matched_by \<Rightarrow> jsstring" where
  "matched_by_literal By_keyword = utf16 ''keyword''"
| "matched_by_literal By_simplified_chinese = utf16 ''simplified-chinese''"
| "matched_by_literal By_ai = utf16 ''ai''"
| "matched_by_literal By_none = utf16 ''none''"

record AnalysisResponse =
  shouldBlock :: bool
  matched_by :: matched_by
  matched_keyword :: "jsstring option"
  error :: "jsstring option"

datatype AIAnalysisResult = AIAnalysisResult (ai_shouldBlock: bool)

text \<open>The one request \<open>analyzeWithGroq\<close> sends, and what the network answers.\<close>

record request =
  req_url :: jsstring
  req_method :: jsstring
  req_authorization :: jsstring
  req_content_type :: jsstring
  req_model :: jsstring
  req_role :: jsstring
  req_content :: jsstring
  req_temperature :: rat

datatype response = Response (resp_status: nat) (resp_body: "js_error + jsstring")

text \<open>\<open>response.ok\<close>: the status is in the range 200 to 299.\<close>

definition resp_ok :: "response \<Rightarrow> bool" where
  "resp_ok r \<longleftrightarrow> 200 \<le> resp_status r \<and> resp_status r \<le> 299"

text \<open>
  What the outside world answers: the read of \<open>chrome.storage.local\<close> (a rejection, or
  the stored \<open>settings\<close> if any) and \<open>fetch\<close> (a rejection, or a response).
\<close>

record world =
  storage_settings :: "js_error + Settings option"
  fetch :: "request \<Rightarrow> js_error + response"

definition FILTER_PROMPT :: "jsstring \<Rightarrow> jsstring \<Rightarrow> jsstring" where
  "FILTER_PROMPT text description =
     utf16 ''Analyze this text and determine if it should be blocked based on the following filter criteria: ''
     @ [0x22] @ description @ [0x22, 0x0A, 0x0A]
     @ utf16 ''Text to analyze: '' @ [0x22, 0x22, 0x22] @ text @ [0x22, 0x22, 0x22, 0x0A, 0x0A]
     @ utf16 ''Respond with JSON only: {'' @ [0x22] @ utf16 ''shouldBlock'' @ [0x22] @ utf16 '': true} or {''
     @ [0x22] @ utf16 ''shouldBlock'' @ [0x22] @ utf16 '': false}''"

definition groq_request :: "jsstring \<Rightarrow> jsstring \<Rightarrow> jsstring \<Rightarrow> jsstring \<Rightarrow> request" where
  "groq_request text apiKey model description = \<lparr>
     req_url = utf16 ''https://api.groq.com/openai/v1/chat/completions'',
     req_method = utf16 ''POST'',
     req_authorization = utf16 ''Bearer '' @ apiKey,
     req_content_type = utf16 ''application/json'',
     req_model = model,
     req_role = utf16 ''user'',
     req_content = FILTER_PROMPT text description,
     req_temperature = 3 / 10 \<rparr>"

text \<open>
  Reading a property. \<open>None\<close> is \<open>undefined\<close>. \<open>getProp\<close> is \<open>v.name\<close> on a value that is
  not \<open>null\<close>, for a name that no prototype defines (\<open>choices\<close>, \<open>message\<close>, \<open>content\<close>,
  \<open>shouldBlock\<close>): only an object can have it.
\<close>

fun getProp :: "json \<Rightarrow> jsstring \<Rightarrow> json option" where
  "getProp (JObject kvs) name = map_of kvs name"
| "getProp v name = None"

text \<open>\<open>v?.name\<close>: \<open>undefined\<close> when \<open>v\<close> is \<open>undefined\<close> or \<open>null\<close>.\<close>

fun optProp :: "json option \<Rightarrow> jsstring \<Rightarrow> json option" where
  "optProp None name = None"
| "optProp (Some JNull) name = None"
| "optProp (Some v) name = getProp v name"

text \<open>\<open>v?.[0]\<close>: the first element of an array, the first code unit of a string, the property \<open>"0"\<close> of an object.\<close>

fun optIndex0 :: "json option \<Rightarrow> json option" where
  "optIndex0 (Some (JArray (x # xs))) = Some x"
| "optIndex0 (Some (JString (c # cs))) = Some (JString [c])"
| "optIndex0 (Some (JObject kvs)) = map_of kvs (utf16 ''0'')"
| "optIndex0 v = None"

text \<open>JavaScript truthiness, as \<open>!content\<close> and \<open>Boolean(...)\<close> apply it.\<close>

fun truthy :: "json option \<Rightarrow> bool" where
  "truthy None = False"
| "truthy (Some JNull) = False"
| "truthy (Some (JBool b)) = b"
| "truthy (Some (JNumber (Finite r))) = (r \<noteq> 0)"
| "truthy (Some (JNumber n)) = True"
| "truthy (Some (JString s)) = (s \<noteq> [])"
| "truthy (Some (JArray xs)) = True"
| "truthy (Some (JObject kvs)) = True"

text \<open>\<open>response.json()\<close>: read the body and parse it.\<close>

definition response_json :: "platform \<Rightarrow> response \<Rightarrow> js_error + json" where
  "response_json P r = (case resp_body r of Inl e \<Rightarrow> Inl e | Inr b \<Rightarrow> JSON_parse P b)"

text \<open>\<open>data.choices?.[0]?.message?.content\<close>; \<open>data.choices\<close> throws on \<open>null\<close>.\<close>

definition extract_content :: "json \<Rightarrow> js_error + json option" where
  "extract_content data =
     (case data of
        JNull \<Rightarrow> Inl (JsError TypeError (utf16 ''Cannot read properties of null (reading 'choices')''))
      | _ \<Rightarrow> Inr (optProp (optProp (optIndex0 (getProp data (utf16 ''choices''))) (utf16 ''message''))
                 (utf16 ''content'')))"

text \<open>
  \<open>content.match(/\{[\s\S]*\}/)\<close>: from the first \<open>{\<close> to the last \<open>}\<close> after it, \<open>null\<close>
  when there is no such pair.
\<close>

definition match_braces :: "jsstring \<Rightarrow> jsstring option" where
  "match_braces s =
     (case dropWhile (\<lambda>c. c \<noteq> 0x7B) s of
        [] \<Rightarrow> None
      | open_brace # rest \<Rightarrow>
          (case rev (dropWhile (\<lambda>c. c \<noteq> 0x7D) (rev rest)) of
             [] \<Rightarrow> None
           | inner \<Rightarrow> Some (open_brace # inner)))"

text \<open>The body of the \<open>try\<close> in \<open>analyzeWithGroq\<close>; \<open>Inl\<close> is what it throws.\<close>

definition parse_try :: "platform \<Rightarrow> json \<Rightarrow> js_error + AIAnalysisResult" where
  "parse_try P content =
     (case content of
        JString s \<Rightarrow>
          (case match_braces s of
             Some jsonMatch \<Rightarrow>
               (case JSON_parse P jsonMatch of
                  Inl e \<Rightarrow> Inl e
                | Inr JNull \<Rightarrow>
                    Inl (JsError TypeError (utf16 ''Cannot read properties of null (reading 'shouldBlock')''))
                | Inr parsed \<Rightarrow>
                    Inr (AIAnalysisResult (truthy (getProp parsed (utf16 ''shouldBlock'')))))
           | None \<Rightarrow> Inl (JsError Error (utf16 ''No JSON found in response'')))
      | _ \<Rightarrow> Inl (JsError TypeError (utf16 ''content.match is not a function'')))"

text \<open>The \<open>catch (parseError)\<close>: whatever the \<open>try\<close> threw is thrown again, wrapped.\<close>

definition parse_reply :: "platform \<Rightarrow> json \<Rightarrow> js_error + AIAnalysisResult" where
  "parse_reply P content =
     (case parse_try P content of
        Inl parseError \<Rightarrow>
          Inl (JsError Error (utf16 ''Failed to parse LLM response: '' @ error_toString parseError))
      | Inr result \<Rightarrow> Inr result)"

definition analyzeWithGroq ::
  "platform \<Rightarrow> world \<Rightarrow> jsstring \<Rightarrow> jsstring \<Rightarrow> jsstring \<Rightarrow> jsstring \<Rightarrow> js_error + AIAnalysisResult" where
  "analyzeWithGroq P W text apiKey model description =
     (case fetch W (groq_request text apiKey model description) of
        Inl e \<Rightarrow> Inl e
      | Inr response \<Rightarrow>
          if \<not> resp_ok response then
            (case resp_body response of
               Inl e \<Rightarrow> Inl e
             | Inr errorText \<Rightarrow>
                 Inl (JsError Error (utf16 ''Groq API error: '' @ number_toString (resp_status response)
                        @ utf16 '' - '' @ errorText)))
          else
            (case response_json P response of
               Inl e \<Rightarrow> Inl e
             | Inr data \<Rightarrow>
                 (case extract_content data of
                    Inl e \<Rightarrow> Inl e
                  | Inr None \<Rightarrow> Inl (JsError Error (utf16 ''No content in Groq response''))
                  | Inr (Some content) \<Rightarrow>
                      if \<not> truthy (Some content)
                      then Inl (JsError Error (utf16 ''No content in Groq response''))
                      else parse_reply P content)))"

text \<open>
  The three failure conditions in the specification's words, for the request \<open>req\<close>:
  no successful HTTP answer (the request fails or the status is not a success); no content
  (the body cannot be read or parsed, or the first choice has no truthy message content);
  no JSON object located and parsed in the reply.
\<close>

definition http_failed :: "world \<Rightarrow> request \<Rightarrow> bool" where
  "http_failed W req = (case fetch W req of Inl e \<Rightarrow> True | Inr r \<Rightarrow> \<not> resp_ok r)"

definition reply_content :: "platform \<Rightarrow> world \<Rightarrow> request \<Rightarrow> json option" where
  "reply_content P W req =
     (case fetch W req of
        Inl e \<Rightarrow> None
      | Inr r \<Rightarrow>
          (case response_json P r of
             Inl e \<Rightarrow> None
           | Inr data \<Rightarrow> (case extract_content data of Inl e \<Rightarrow> None | Inr c \<Rightarrow> c)))"

definition located_json :: "platform \<Rightarrow> json option \<Rightarrow> json option" where
  "located_json P content =
     (case content of
        Some (JString s) \<Rightarrow>
          (case match_braces s of
             None \<Rightarrow> None
           | Some jsonMatch \<Rightarrow>
               (case JSON_parse P jsonMatch of
                  Inl e \<Rightarrow> None
                | Inr parsed \<Rightarrow> if parsed = JNull then None else Some parsed))
      | _ \<Rightarrow> None)"

section \<open>background.ts: the pipeline\<close>

text \<open>\<open>result.settings || DEFAULT_SETTINGS\<close>\<close>

definition getSettings :: "world \<Rightarrow> js_error + Settings" where
  "getSettings W =
     (case storage_settings W of
        Inl e \<Rightarrow> Inl e
      | Inr None \<Rightarrow> Inr DEFAULT_SETTINGS
      | Inr (Some s) \<Rightarrow> Inr s)"

text \<open>\<open>settings.filterDescription || DEFAULT_SETTINGS.filterDescription\<close>\<close>

definition filterDescription_or_default :: "Settings \<Rightarrow> jsstring" where
  "filterDescription_or_default settings =
     (if filterDescription settings \<noteq> [] then filterDescription settings
      else filterDescription DEFAULT_SETTINGS)"

text \<open>
  The body of the \<open>try\<close> in \<open>analyzeText\<close>, once the settings are read. The result is what
  it returns (\<open>Inr\<close>) or throws (\<open>Inl\<close>), with the requests sent to the classifier.
\<close>

definition ai_layer ::
  "platform \<Rightarrow> world \<Rightarrow> Settings \<Rightarrow> jsstring \<Rightarrow> (js_error + AnalysisResponse) \<times> request list" where
  "ai_layer P W settings text =
     (if \<not> aiFilterEnabled settings then
        (Inr \<lparr>shouldBlock = False, matched_by = By_none, matched_keyword = None, error = None\<rparr>, [])
      else if groqApiKey settings = [] then
        (Inr \<lparr>shouldBlock = False, matched_by = By_none, matched_keyword = None, error = None\<rparr>, [])
      else
        let description = filterDescription_or_default settings;
            sent = [groq_request text (groqApiKey settings) (selectedModel settings) description]
        in (case analyzeWithGroq P W text (groqApiKey settings) (selectedModel settings) description of
              Inl e \<Rightarrow> (Inl e, sent)
            | Inr aiResult \<Rightarrow>
                (Inr \<lparr>shouldBlock = ai_shouldBlock aiResult, matched_by = By_ai,
                      matched_keyword = None, error = None\<rparr>, sent)))"

definition chinese_layer ::
  "platform \<Rightarrow> world \<Rightarrow> Settings \<Rightarrow> jsstring \<Rightarrow> (js_error + AnalysisResponse) \<times> request list" where
  "chinese_layer P W settings text =
     (if simplifiedChineseFilterEnabled settings \<and> isSimplifiedChinese P text then
        (Inr \<lparr>shouldBlock = True, matched_by = By_simplified_chinese,
              matched_keyword = None, error = None\<rparr>, [])
      else ai_layer P W settings text)"

definition keyword_layer ::
  "platform \<Rightarrow> world \<Rightarrow> Settings \<Rightarrow> jsstring \<Rightarrow> (js_error + AnalysisResponse) \<times> request list" where
  "keyword_layer P W settings text =
     (if keywordFilterEnabled settings then
        let keywords = parseKeywords P (keywords_str settings) in
        if length keywords > 0 then
          (case checkKeywordMatch P text keywords of
             None \<Rightarrow> chinese_layer P W settings text
           | Some matchedKeyword \<Rightarrow>
               if matchedKeyword \<noteq> [] then
                 (Inr \<lparr>shouldBlock = True, matched_by = By_keyword,
                       matched_keyword = Some matchedKeyword, error = None\<rparr>, [])
               else chinese_layer P W settings text)
        else chinese_layer P W settings text
      else chinese_layer P W settings text)"

definition analyzeText_try ::
  "platform \<Rightarrow> world \<Rightarrow> jsstring \<Rightarrow> (js_error + AnalysisResponse) \<times> request list" where
  "analyzeText_try P W text =
     (case getSettings W of
        Inl e \<Rightarrow> (Inl e, [])
      | Inr settings \<Rightarrow> keyword_layer P W settings text)"

text \<open>\<open>analyzeText\<close>: the \<open>try\<close>, and the \<open>catch\<close> that fails open.\<close>

definition analyzeText :: "platform \<Rightarrow> world \<Rightarrow> jsstring \<Rightarrow> AnalysisResponse \<times> request list" where
  "analyzeText P W text =
     (case analyzeText_try P W text of
        (Inl err, sent) \<Rightarrow>
          (\<lparr>shouldBlock = False, matched_by = By_none, matched_keyword = None,
            error = Some (error_toString err)\<rparr>, sent)
      | (Inr verdict, sent) \<Rightarrow> (verdict, sent))"


section \<open>content.ts: the content hash\<close>

text \<open>
  \<open>hash & hash\<close> and \<open>hash << 5\<close> convert their result to a signed 32-bit integer
  (ToInt32); the subtraction and the addition between them are exact.
\<close>

definition toInt32 :: "int \<Rightarrow> int" where
  "toInt32 x = (x + 2 ^ 31) mod 2 ^ 32 - 2 ^ 31"

text \<open>One round of the loop: \<open>hash = (hash << 5) - hash + char; hash = hash & hash\<close>.\<close>

definition hash_step :: "int \<Rightarrow> code_unit \<Rightarrow> int" where
  "hash_step hash char = toInt32 (toInt32 (hash * 2 ^ 5) - hash + uint char)"

definition hash_value :: "jsstring \<Rightarrow> int" where
  "hash_value text = foldl hash_step 0 text"

text \<open>\<open>n.toString(36)\<close> of an integer: digits \<open>0-9a-z\<close>, a minus sign when negative.\<close>

definition digit36 :: "nat \<Rightarrow> code_unit" where
  "digit36 d = (if d < 10 then of_nat (48 + d) else of_nat (87 + d))"

fun digits36 :: "nat \<Rightarrow> jsstring" where
  "digits36 n = (if n < 36 then [digit36 n] else digits36 (n div 36) @ [digit36 (n mod 36)])"

declare digits36.simps [simp del]

definition toString36 :: "int \<Rightarrow> jsstring" where
  "toString36 n = (if n < 0 then 0x2D # digits36 (nat (- n)) else digits36 (nat n))"

definition hashText :: "jsstring \<Rightarrow> jsstring" where
  "hashText text = toString36 (hash_value text)"

section \<open>content.ts: the page state\<close>

text \<open>
  An element is known by its identity. Of its state the script reads and writes the tag
  name, the id, the class list, the text content, the inner HTML, the inline display style
  and, once it is blocked with a reveal button, the click listener of that button with the
  HTML and display it restores.
\<close>

type_synonym elem = nat

record element =
  tagName :: jsstring
  elem_id :: jsstring
  classList :: "jsstring list"
  textContent :: jsstring
  innerHTML :: jsstring
  display :: jsstring
  revealButton :: "(jsstring \<times> jsstring) option"

record AnalyzeTextMessage =
  action :: jsstring
  msg_text :: jsstring
  msg_textHash :: jsstring

text \<open>
  An analysis suspended at \<open>await chrome.runtime.sendMessage(message)\<close>: the element and the
  two values its continuation restores.
\<close>

datatype task = Task (task_element: elem) (task_originalHTML: jsstring) (task_originalDisplay: jsstring)

text \<open>
  The module's variables (\<open>analyzedTexts\<close>, \<open>processingElements\<close>, \<open>processedElements\<close>,
  the two counters, \<open>cachedSettings\<close>), the document (its elements and the status and
  error flag that \<open>showDebugIndicator\<close> last wrote), the messages sent to the background
  script in order, and the suspended analyses.
\<close>

record page =
  analyzedTexts :: "jsstring set"
  processingElements :: "elem set"
  processedElements :: "elem set"
  analyzedCount :: nat
  blockedCount :: nat
  cachedSettings :: "Settings option"
  dom :: "elem \<Rightarrow> element"
  indicator :: "(jsstring \<times> bool) option"
  sent_messages :: "AnalyzeTextMessage list"
  in_flight :: "task list"

definition MIN_TEXT_LENGTH :: nat where
  "MIN_TEXT_LENGTH = 10"

definition PLACEHOLDER_CLASS :: jsstring where
  "PLACEHOLDER_CLASS = utf16 ''toxic-blocker-placeholder''"

definition BLOCKED_CLASS :: jsstring where
  "BLOCKED_CLASS = utf16 ''toxic-blocker-blocked''"


text \<open>\<open>classList.add\<close> and \<open>classList.remove\<close>.\<close>

definition classList_add :: "jsstring \<Rightarrow> jsstring list \<Rightarrow> jsstring list" where
  "classList_add c cs = (if c \<in> set cs then cs else cs @ [c])"

definition classList_remove :: "jsstring \<Rightarrow> jsstring list \<Rightarrow> jsstring list" where
  "classList_remove c cs = removeAll c cs"

text \<open>
  Writing \<open>element.textContent = '...'\<close> leaves one text node: the inner HTML is the same
  three dots and the reveal button, if any, is gone. Writing \<open>element.innerHTML\<close> parses
  the HTML: the text content of the result is given by the browser, here the parameter
  \<open>textOfHTML\<close>.
\<close>

definition set_textContent_dots :: "element \<Rightarrow> element" where
  "set_textContent_dots e =
     e\<lparr>textContent := utf16 ''...'', innerHTML := utf16 ''...'', revealButton := None\<rparr>"

definition set_innerHTML :: "(jsstring \<Rightarrow> jsstring) \<Rightarrow> jsstring \<Rightarrow> element \<Rightarrow> element" where
  "set_innerHTML textOfHTML html e =
     e\<lparr>innerHTML := html, textContent := textOfHTML html, revealButton := None\<rparr>"

definition update_element :: "elem \<Rightarrow> (element \<Rightarrow> element) \<Rightarrow> page \<Rightarrow> page" where
  "update_element el f st = st\<lparr>dom := (dom st)(el := f (dom st el))\<rparr>"

text \<open>\<open>(element.textContent || '').trim()\<close>\<close>

definition getAllTextContent :: "element \<Rightarrow> jsstring" where
  "getAllTextContent e = trim (textContent e)"


text \<open>\<open>showDebugIndicator(status, isError)\<close>: the status shown and whether it is an error.\<close>

definition showDebugIndicator :: "jsstring \<Rightarrow> bool \<Rightarrow> page \<Rightarrow> page" where
  "showDebugIndicator status isError st = st\<lparr>indicator := Some (status, isError)\<rparr>"

section \<open>content.ts: analyzeElement\<close>

text \<open>
  \<open>analyzeElement\<close> up to its \<open>await\<close>: everything here runs without interruption. The
  result is the new state and, when a message was sent, the suspended analysis.
\<close>

definition analyzeElement_start :: "page \<Rightarrow> elem \<Rightarrow> page \<times> task option" where
  "analyzeElement_start st el =
     (let text = getAllTextContent (dom st el) in
      if length text < MIN_TEXT_LENGTH then (st, None)
      else
        let textHash = hashText text in
        if textHash \<in> analyzedTexts st then
          (st\<lparr>processedElements := insert el (processedElements st)\<rparr>, None)
        else
          let st1 = st\<lparr>analyzedTexts := insert textHash (analyzedTexts st),
                       processingElements := insert el (processingElements st)\<rparr>;
              originalHTML = innerHTML (dom st1 el);
              originalText = textContent (dom st1 el);
              st2 = update_element el
                      (\<lambda>e. e\<lparr>classList := classList_add PLACEHOLDER_CLASS (classList e)\<rparr>) st1;
              originalDisplay = display (dom st2 el);
              st3 = update_element el set_textContent_dots st2;
              message = \<lparr>action = utf16 ''analyzeText'', msg_text = originalText,
                         msg_textHash = textHash\<rparr>;
              st4 = st3\<lparr>sent_messages := sent_messages st3 @ [message]\<rparr>
          in (st4, Some (Task el originalHTML originalDisplay)))"

text \<open>Restoring an element: \<open>element.innerHTML = originalHTML; element.style.display = originalDisplay\<close>.\<close>

definition restore :: "(jsstring \<Rightarrow> jsstring) \<Rightarrow> task \<Rightarrow> page \<Rightarrow> page" where
  "restore textOfHTML t st =
     update_element (task_element t)
       (\<lambda>e. (set_innerHTML textOfHTML (task_originalHTML t) e)\<lparr>display := task_originalDisplay t\<rparr>) st"

definition blocked_html_reveal :: jsstring where
  \<open>blocked_html_reveal =
     utf16 ''<span>Blocked content</span><button data-content-reveal="true">Show</button>''\<close>

definition blocked_html :: jsstring where
  "blocked_html = utf16 ''<span>Blocked content</span>''"

text \<open>\<open>showBlockedContent\<close>; \<open>cachedSettings?.allowReveal ?? true\<close>.\<close>

definition showBlockedContent :: "(jsstring \<Rightarrow> jsstring) \<Rightarrow> task \<Rightarrow> page \<Rightarrow> page" where
  "showBlockedContent textOfHTML t st =
     (let st1 = update_element (task_element t)
                  (\<lambda>e. e\<lparr>classList := classList_add BLOCKED_CLASS (classList e)\<rparr>) st;
          reveal_allowed = (case cachedSettings st1 of None \<Rightarrow> True | Some s \<Rightarrow> allowReveal s)
      in if reveal_allowed then
           update_element (task_element t)
             (\<lambda>e. (set_innerHTML textOfHTML blocked_html_reveal e)
                     \<lparr>revealButton := Some (task_originalHTML t, task_originalDisplay t)\<rparr>) st1
         else update_element (task_element t) (set_innerHTML textOfHTML blocked_html) st1)"

text \<open>The \<open>catch\<close> of \<open>analyzeElement\<close>.\<close>

definition analyzeElement_catch :: "(jsstring \<Rightarrow> jsstring) \<Rightarrow> task \<Rightarrow> js_error \<Rightarrow> page \<Rightarrow> page" where
  "analyzeElement_catch textOfHTML t err st =
     (let st1 = showDebugIndicator (utf16 ''Error: '' @ error_toString err) True st;
          st2 = update_element (task_element t)
                  (\<lambda>e. e\<lparr>classList := classList_remove PLACEHOLDER_CLASS (classList e)\<rparr>) st1
      in restore textOfHTML t st2)"

text \<open>\<open>response.error\<close> where it is tested and printed: a missing error is as falsy as an empty one.\<close>

definition response_error :: "AnalysisResponse \<Rightarrow> jsstring" where
  "response_error response = (case error response of None \<Rightarrow> [] | Some message \<Rightarrow> message)"

text \<open>
  \<open>analyzeElement\<close> from its \<open>await\<close> on: the promise of \<open>sendMessage\<close> is rejected
  (\<open>Inl\<close>), or fulfilled with a response or with \<open>undefined\<close> (\<open>Inr None\<close>, on which
  \<open>response.error\<close> throws). The \<open>finally\<close> comes last.
\<close>

definition analyzeElement_resume ::
  "(jsstring \<Rightarrow> jsstring) \<Rightarrow> task \<Rightarrow> js_error + AnalysisResponse option \<Rightarrow> page \<Rightarrow> page" where
  "analyzeElement_resume textOfHTML t outcome st =
     (let el = task_element t;
          st_try =
            (case outcome of
               Inl err \<Rightarrow> analyzeElement_catch textOfHTML t err st
             | Inr maybe_response \<Rightarrow>
                 let st1 = st\<lparr>analyzedCount := analyzedCount st + 1\<rparr>;
                     st2 = update_element el
                             (\<lambda>e. e\<lparr>classList := classList_remove PLACEHOLDER_CLASS (classList e)\<rparr>) st1
                 in (case maybe_response of
                       None \<Rightarrow>
                         analyzeElement_catch textOfHTML t
                           (JsError TypeError
                              (utf16 ''Cannot read properties of undefined (reading 'error')'')) st2
                     | Some response \<Rightarrow>
                         if response_error response \<noteq> [] then
                           restore textOfHTML t
                             (showDebugIndicator (utf16 ''Error: '' @ response_error response) True st2)
                         else if shouldBlock response then
                           let st3 = st2\<lparr>blockedCount := blockedCount st2 + 1\<rparr>;
                               st4 = showBlockedContent textOfHTML t st3
                           in showDebugIndicator
                                (utf16 ''Blocked '' @ number_toString (blockedCount st4) @ utf16 '' items'')
                                False st4
                         else
                           showDebugIndicator
                             (utf16 ''Analyzed '' @ number_toString (analyzedCount st2) @ utf16 '' items (''
                                @ number_toString (blockedCount st2) @ utf16 '' blocked)'')
                             False (restore textOfHTML t st2)))
      in st_try\<lparr>processingElements := processingElements st_try - {el},
                processedElements := insert el (processedElements st_try)\<rparr>)"

text \<open>The click listener of the reveal button.\<close>

definition reveal_click :: "(jsstring \<Rightarrow> jsstring) \<Rightarrow> elem \<Rightarrow> page \<Rightarrow> page" where
  "reveal_click textOfHTML el st =
     (case revealButton (dom st el) of
        None \<Rightarrow> st
      | Some (originalHTML, originalDisplay) \<Rightarrow>
          update_element el
            (\<lambda>e. (set_innerHTML textOfHTML originalHTML
                     (e\<lparr>classList := classList_remove BLOCKED_CLASS (classList e)\<rparr>))
                   \<lparr>display := originalDisplay\<rparr>) st)"

section \<open>content.ts: the event loop\<close>

text \<open>
  What can happen on the page, one uninterrupted step each: a call of \<open>analyzeElement\<close>
  runs to its \<open>await\<close>; the answer to the \<open>i\<close>-th suspended analysis arrives and its
  continuation runs to the end; the user clicks a reveal button.
\<close>

datatype event =
    Analyze elem
  | Answer nat "js_error + AnalysisResponse option"
  | Reveal elem

definition step :: "(jsstring \<Rightarrow> jsstring) \<Rightarrow> page \<Rightarrow> event \<Rightarrow> page" where
  "step textOfHTML st ev =
     (case ev of
        Analyze el \<Rightarrow>
          (case analyzeElement_start st el of
             (st', None) \<Rightarrow> st'
           | (st', Some t) \<Rightarrow> st'\<lparr>in_flight := in_flight st' @ [t]\<rparr>)
      | Answer i outcome \<Rightarrow>
          if i < length (in_flight st) then
            analyzeElement_resume textOfHTML (in_flight st ! i) outcome
              (st\<lparr>in_flight := take i (in_flight st) @ drop (Suc i) (in_flight st)\<rparr>)
          else st
      | Reveal el \<Rightarrow> reveal_click textOfHTML el st)"

definition run :: "(jsstring \<Rightarrow> jsstring) \<Rightarrow> page \<Rightarrow> event list \<Rightarrow> page" where
  "run textOfHTML st evs = foldl (step textOfHTML) st evs"

text \<open>The page when the script is loaded: nothing analyzed, nothing sent, nothing suspended.\<close>

definition initial_page :: "(elem \<Rightarrow> element) \<Rightarrow> Settings option \<Rightarrow> page" where
  "initial_page d s = \<lparr>
     analyzedTexts = {}, processingElements = {}, processedElements = {},
     analyzedCount = 0, blockedCount = 0, cachedSettings = s, dom = d,
     indicator = None, sent_messages = [], in_flight = [] \<rparr>"

section \<open>content.ts: processElements\<close>

text \<open>
  What \<open>processElements\<close> does in order: \<open>Dispatch batch\<close> is
  \<open>await Promise.all(batch.map(el => analyzeElement(el)))\<close> (every element of the batch is
  started, one after the other, before any of their answers is awaited), \<open>Delay ms\<close> is
  \<open>await new Promise(resolve => setTimeout(resolve, ms))\<close>.
\<close>

datatype sched_event = Dispatch "elem list" | Delay nat

definition batchSize :: nat where
  "batchSize = 5"

text \<open>\<open>elements.slice(i, j)\<close> for \<open>0 \<le> i \<le> j\<close>.\<close>

definition slice :: "nat \<Rightarrow> nat \<Rightarrow> 'a list \<Rightarrow> 'a list" where
  "slice i j xs = take (j - i) (drop i xs)"

function processElements_from :: "nat \<Rightarrow> elem list \<Rightarrow> sched_event list" where
  "processElements_from i elements =
     (if i < length elements then
        (let batch = slice i (i + batchSize) elements
         in Dispatch batch # Delay 100 # processElements_from (i + batchSize) elements)
      else [])"
  by pat_completeness auto
termination
  by (relation "measure (\<lambda>(i, elements). length elements - i)") (auto simp: batchSize_def)

declare processElements_from.simps [simp del]

definition processElements :: "elem list \<Rightarrow> sched_event list" where
  "processElements elements = processElements_from 0 elements"

text \<open>The batches of a schedule, in order.\<close>

fun batches :: "sched_event list \<Rightarrow> elem list list" where
  "batches [] = []"
| "batches (Dispatch b # evs) = b # batches evs"
| "batches (Delay ms # evs) = batches evs"

text \<open>Starting a batch: \<open>batch.map(el => analyzeElement(el))\<close>, each call up to its \<open>await\<close>.\<close>

definition start_batch :: "(jsstring \<Rightarrow> jsstring) \<Rightarrow> page \<Rightarrow> elem list \<Rightarrow> page" where
  "start_batch textOfHTML st batch = run textOfHTML st (map Analyze batch)"

text \<open>
  \<open>processElements\<close> on the page. The answers that arrive while the script waits at
  \<open>await Promise.all(...)\<close> are given per batch (\<open>rounds\<close>); each answer names the
  suspended analysis it is for by its position among those suspended.
\<close>

type_synonym answers = "(nat \<times> (js_error + AnalysisResponse option)) list"

definition settle :: "(jsstring \<Rightarrow> jsstring) \<Rightarrow> page \<Rightarrow> answers \<Rightarrow> page" where
  "settle textOfHTML st as = run textOfHTML st (map (\<lambda>(i, outcome). Answer i outcome) as)"

text \<open>The analyses that starting a batch suspended: the promises \<open>Promise.all\<close> waits for that are not yet resolved.\<close>

definition batch_tasks :: "page \<Rightarrow> page \<Rightarrow> task list" where
  "batch_tasks st started = drop (length (in_flight st)) (in_flight started)"

text \<open>\<open>Promise.all\<close> is fulfilled once none of them is suspended any more.\<close>

definition batch_settled :: "task list \<Rightarrow> page \<Rightarrow> bool" where
  "batch_settled ts st \<longleftrightarrow> (\<forall>t\<in>set ts. t \<notin> set (in_flight st))"

text \<open>
  One passage of the loop body as it happened: the batch, the milliseconds of timers awaited
  before it, the page when the batch was taken, the page when all its calls of
  \<open>analyzeElement\<close> had reached their \<open>await\<close> or returned, and the page after the answers
  of its round.
\<close>

datatype dispatch = Dispatched (d_batch: "elem list") (d_clock: nat)
  (d_before: page) (d_started: page) (d_after: page)

text \<open>
  The schedule run on the page: a batch is started; the loop goes on to the timer and the
  next batch only if the answers of the round have settled every analysis of the batch, and
  stays suspended at its \<open>await\<close> otherwise.
\<close>

fun run_schedule ::
  "(jsstring \<Rightarrow> jsstring) \<Rightarrow> page \<Rightarrow> nat \<Rightarrow> sched_event list \<Rightarrow> answers list \<Rightarrow> dispatch list" where
  "run_schedule textOfHTML st clock [] rounds = []"
| "run_schedule textOfHTML st clock (Delay ms # sched) rounds =
     run_schedule textOfHTML st (clock + ms) sched rounds"
| "run_schedule textOfHTML st clock (Dispatch batch # sched) rounds =
     (let started = start_batch textOfHTML st batch;
          after = settle textOfHTML started (case rounds of [] \<Rightarrow> [] | as # rest \<Rightarrow> as)
      in Dispatched batch clock st started after #
         (if batch_settled (batch_tasks st started) after
          then run_schedule textOfHTML after clock sched (tl rounds)
          else []))"

definition processElements_run ::
  "(jsstring \<Rightarrow> jsstring) \<Rightarrow> page \<Rightarrow> elem list \<Rightarrow> answers list \<Rightarrow> dispatch list" where
  "processElements_run textOfHTML st elements rounds =
     run_schedule textOfHTML st 0 (processElements elements) rounds"

text \<open>
  A batch of newly discovered fragments: texts long enough to be analyzed, with hashes that
  are new and differ from one another.
\<close>

definition new_fragments :: "page \<Rightarrow> elem list \<Rightarrow> bool" where
  "new_fragments st batch \<longleftrightarrow>
     distinct (map (\<lambda>el. hashText (getAllTextContent (dom st el))) batch)
     \<and> (\<forall>el\<in>set batch. MIN_TEXT_LENGTH \<le> length (getAllTextContent (dom st el))
           \<and> hashText (getAllTextContent (dom st el)) \<notin> analyzedTexts st)"

text \<open>The suspended analysis and the message of a call of \<open>analyzeElement\<close> for a new fragment.\<close>

definition task_of :: "page \<Rightarrow> elem \<Rightarrow> task" where
  "task_of st el = Task el (innerHTML (dom st el)) (display (dom st el))"

definition message_of :: "page \<Rightarrow> elem \<Rightarrow> AnalyzeTextMessage" where
  "message_of st el = \<lparr>action = utf16 ''analyzeText'', msg_text = textContent (dom st el),
     msg_textHash = hashText (getAllTextContent (dom st el))\<rparr>"

text \<open>One answer for each element of a batch, each to the analysis suspended longest.\<close>

definition answer_all :: "(js_error + AnalysisResponse option) \<Rightarrow> elem list \<Rightarrow> answers" where
  "answer_all outcome batch = map (\<lambda>el. (0, outcome)) batch"

section \<open>content.ts: what the event loop preserves\<close>




section \<open>A platform instance for evaluation\<close>

text \<open>
  Concrete values of the platform functions, used where a theorem is evaluated at given
  texts: \<open>toLowerCase\<close> as it acts on ASCII strings, four entries of the OpenCC tables
  (U+6C49, U+8BED, U+7B80, U+4F53 and their Traditional forms), and \<open>JSON.parse\<close> on the
  four texts evaluated below (it is asked about no other text there).
\<close>

definition ascii_toLowerCase :: "jsstring \<Rightarrow> jsstring" where
  "ascii_toLowerCase s = map (\<lambda>c. if 0x41 \<le> c \<and> c \<le> 0x5A then c + 0x20 else c) s"

text \<open>
  \<open>toLowerCase\<close> as it acts on strings of ASCII and Greek capital letters: each letter
  becomes its small form, and a capital sigma (U+03A3) becomes the final sigma (U+03C2) when
  a letter stands before it and none after it, the small sigma (U+03C3) otherwise.
\<close>

definition isLetter :: "code_unit \<Rightarrow> bool" where
  "isLetter c \<longleftrightarrow>
     (0x41 \<le> c \<and> c \<le> 0x5A) \<or> (0x61 \<le> c \<and> c \<le> 0x7A)
     \<or> (0x0391 \<le> c \<and> c \<le> 0x03A9) \<or> (0x03B1 \<le> c \<and> c \<le> 0x03C9)"

fun greek_lower :: "bool \<Rightarrow> jsstring \<Rightarrow> jsstring" where
  "greek_lower after_letter [] = []"
| "greek_lower after_letter (c # cs) =
     (if c = 0x03A3 then
        (if after_letter \<and> (case cs of [] \<Rightarrow> True | d # ds \<Rightarrow> \<not> isLetter d) then 0x03C2 else 0x03C3)
      else if (0x41 \<le> c \<and> c \<le> 0x5A) \<or> (0x0391 \<le> c \<and> c \<le> 0x03A1)
              \<or> (0x03A4 \<le> c \<and> c \<le> 0x03A9)
      then c + 0x20
      else c) # greek_lower (isLetter c) cs"

definition greek_toLowerCase :: "jsstring \<Rightarrow> jsstring" where
  "greek_toLowerCase s = greek_lower False s"

definition convert_chars :: "(code_unit \<times> code_unit) list \<Rightarrow> jsstring \<Rightarrow> jsstring" where
  "convert_chars table s = map (\<lambda>c. case map_of table c of None \<Rightarrow> c | Some d \<Rightarrow> d) s"

definition s2t_excerpt :: "(code_unit \<times> code_unit) list" where
  "s2t_excerpt = [(0x6C49, 0x6F22), (0x8BED, 0x8A9E), (0x7B80, 0x7C21), (0x4F53, 0x9AD4)]"

definition t2s_excerpt :: "(code_unit \<times> code_unit) list" where
  "t2s_excerpt = [(0x6F22, 0x6C49), (0x8A9E, 0x8BED), (0x7C21, 0x7B80), (0x9AD4, 0x4F53)]"

definition reply_true :: jsstring where
  \<open>reply_true = utf16 ''{"shouldBlock": true}''\<close>

definition reply_string_false :: jsstring where
  \<open>reply_string_false = utf16 ''{"shouldBlock": "false"}''\<close>

text \<open>A chat completion whose first choice has the given message content, as text and as parsed.\<close>

definition json_escape :: "jsstring \<Rightarrow> jsstring" where
  "json_escape s = concat (map (\<lambda>c. if c = 0x22 \<or> c = 0x5C then [0x5C, c] else [c]) s)"

definition chat_body :: "jsstring \<Rightarrow> jsstring" where
  \<open>chat_body reply = utf16 ''{"choices":[{"message":{"content":"'' @ json_escape reply @ utf16 ''"}}]}''\<close>

definition chat_data :: "jsstring \<Rightarrow> json" where
  "chat_data reply =
     JObject [(utf16 ''choices'',
       JArray [JObject [(utf16 ''message'', JObject [(utf16 ''content'', JString reply)])]])]"

definition sample_JSON_parse :: "jsstring \<Rightarrow> js_error + json" where
  "sample_JSON_parse s =
     (case map_of
        [(reply_true, JObject [(utf16 ''shouldBlock'', JBool True)]),
         (reply_string_false, JObject [(utf16 ''shouldBlock'', JString (utf16 ''false''))]),
         (chat_body reply_true, chat_data reply_true),
         (chat_body reply_string_false, chat_data reply_string_false)] s of
        Some v \<Rightarrow> Inr v
      | None \<Rightarrow> Inl (JsError SyntaxError (utf16 ''Unexpected token'')))"

definition sample_platform :: platform where
  "sample_platform = \<lparr>
     toLowerCase = ascii_toLowerCase,
     converterS2T = convert_chars s2t_excerpt,
     converterT2S = convert_chars t2s_excerpt,
     JSON_parse = sample_JSON_parse \<rparr>"

definition greek_platform :: platform where
  "greek_platform = sample_platform\<lparr>toLowerCase := greek_toLowerCase\<rparr>"

text \<open>A world with the given stored settings in which every request gets the given answer.\<close>

definition sample_world :: "Settings \<Rightarrow> js_error + response \<Rightarrow> world" where
  "sample_world settings answer =
     \<lparr> storage_settings = Inr (Some settings), fetch = (\<lambda>req. answer) \<rparr>"

text \<open>A document in which every element carries the same plain text.\<close>

definition sample_element :: "jsstring \<Rightarrow> element" where
  "sample_element t = \<lparr>
     tagName = utf16 ''DIV'', elem_id = [], classList = [], textContent = t, innerHTML = t,
     display = [], revealButton = None \<rparr>"


text \<open>The text of the HTML that the script itself writes: the tags removed.\<close>

fun strip_tags :: "bool \<Rightarrow> jsstring \<Rightarrow> jsstring" where
  "strip_tags in_tag [] = []"
| "strip_tags in_tag (c # cs) =
     (if c = 0x3C then strip_tags True cs
      else if c = 0x3E then strip_tags False cs
      else if in_tag then strip_tags in_tag cs
      else c # strip_tags in_tag cs)"

text \<open>A document in which the elements carry different texts.\<close>

definition numbered_dom :: "elem \<Rightarrow> element" where
  "numbered_dom el = sample_element (utf16 ''Fragment number '' @ [0x40 + of_nat el])"

text \<open>The answer \<open>{shouldBlock: false, matched_by: 'none'}\<close> to the first suspended analysis.\<close>

definition answer_allow :: "nat \<times> (js_error + AnalysisResponse option)" where
  "answer_allow =
     (0, Inr (Some \<lparr>shouldBlock = False, matched_by = By_none, matched_keyword = None, error = None\<rparr>))"


section \<open>Lemmas on strings and keywords\<close>

lemma startsWith_iff: "startsWith t k \<longleftrightarrow> (\<exists>b. t = k @ b)"
  unfolding startsWith_def
  by (metis append_eq_conv_conj append_take_drop_id)

lemma string_includes_iff: "string_includes t k \<longleftrightarrow> (\<exists>a b. t = a @ k @ b)"
proof (induction t)
  case Nil
  then show ?case by auto
next
  case (Cons c cs)
  show ?case
  proof
    assume "string_includes (c # cs) k"
    then consider "startsWith (c # cs) k" | "string_includes cs k" by auto
    then show "\<exists>a b. c # cs = a @ k @ b"
    proof cases
      case 1
      then obtain b where "c # cs = k @ b" by (auto simp: startsWith_iff)
      then have "c # cs = [] @ k @ b" by simp
      then show ?thesis by blast
    next
      case 2
      then obtain a b where "cs = a @ k @ b" using Cons.IH by blast
      then have "c # cs = (c # a) @ k @ b" by simp
      then show ?thesis by blast
    qed
  next
    assume "\<exists>a b. c # cs = a @ k @ b"
    then obtain a b where ab: "c # cs = a @ k @ b" by blast
    show "string_includes (c # cs) k"
    proof (cases a)
      case Nil
      with ab have "startsWith (c # cs) k" by (auto simp: startsWith_iff)
      then show ?thesis by simp
    next
      case (Cons x a')
      with ab have "cs = a' @ k @ b" by simp
      then have "string_includes cs k" using Cons.IH by blast
      then show ?thesis by simp
    qed
  qed
qed

lemma split_pieces: "p \<in> set (split sep s) \<Longrightarrow> set p \<subseteq> set s \<and> sep \<notin> set p"
proof (induction s arbitrary: p)
  case Nil
  then show ?case by simp
next
  case (Cons c cs)
  note IH = Cons.IH and prems = Cons.prems
  show ?case
  proof (cases "c = sep")
    case True
    with prems have "p = [] \<or> p \<in> set (split sep cs)" by simp
    then show ?thesis using IH by auto
  next
    case False
    show ?thesis
    proof (cases "split sep cs")
      case Nil
      with prems False have "p = [c]" by simp
      then show ?thesis using False by simp
    next
      case (Cons q qs)
      with prems False have pq: "p = c # q \<or> p \<in> set qs" by simp
      have q: "set q \<subseteq> set cs \<and> sep \<notin> set q" using IH[of q] Cons by simp
      have r: "\<And>r. r \<in> set qs \<Longrightarrow> set r \<subseteq> set cs \<and> sep \<notin> set r" using IH Cons by simp
      from pq show ?thesis
      proof
        assume "p = c # q"
        then show ?thesis using q False by auto
      next
        assume "p \<in> set qs"
        then show ?thesis using r by auto
      qed
    qed
  qed
qed

lemma trim_whitespace_only:
  assumes "\<forall>c\<in>set p. isWhiteSpace c"
  shows "trim p = []"
proof -
  have d: "dropWhile isWhiteSpace p = []" using assms by (induction p) simp_all
  show ?thesis unfolding trim_def d by simp
qed

lemma keyword_loop_hd_filter:
  "keyword_loop lt ks =
     (if \<exists>k\<in>set ks. string_includes lt k then Some (hd (filter (string_includes lt) ks)) else None)"
  by (induction ks) auto

lemma parseKeywords_nonempty: "k \<in> set (parseKeywords P s) \<Longrightarrow> k \<noteq> []"
  by (auto simp: parseKeywords_def split: if_splits)

lemma parseKeywords_in:
  "k \<in> set (parseKeywords P s) \<Longrightarrow> \<exists>raw\<in>set (split 0x2C s). k = toLowerCase P (trim raw)"
  by (auto simp: parseKeywords_def split: if_splits)

lemma parseKeywords_commas_whitespace:
  assumes "toLowerCase P [] = []" and "\<forall>c\<in>set s. c = 0x2C \<or> isWhiteSpace c"
  shows "parseKeywords P s = []"
proof -
  have "toLowerCase P (trim p) = []" if "p \<in> set (split 0x2C s)" for p
  proof -
    have "\<forall>c\<in>set p. isWhiteSpace c" using split_pieces[OF that] assms(2) by auto
    then show ?thesis using assms(1) by (simp add: trim_whitespace_only)
  qed
  then show ?thesis
    by (auto simp: parseKeywords_def filter_empty_conv)
qed

lemma hd_filter_in: "\<exists>k\<in>set ks. Q k \<Longrightarrow> hd (filter Q ks) \<in> set ks \<and> Q (hd (filter Q ks))"
  by (induction ks) auto

lemma hd_filter_first:
  assumes "\<exists>k\<in>set ks. Q k"
  shows "\<exists>i<length ks. ks ! i = hd (filter Q ks) \<and> (\<forall>j<i. \<not> Q (ks ! j))"
  using assms
proof (induction ks)
  case Nil
  then show ?case by simp
next
  case (Cons k ks)
  show ?case
  proof (cases "Q k")
    case True
    then show ?thesis by (intro exI[of _ 0]) simp
  next
    case False
    with Cons.prems have "\<exists>k\<in>set ks. Q k" by simp
    then obtain i where i: "i < length ks" "ks ! i = hd (filter Q ks)" "\<forall>j<i. \<not> Q (ks ! j)"
      using Cons.IH by blast
    have "\<forall>j<Suc i. \<not> Q ((k # ks) ! j)"
      using i(3) False by (auto simp: less_Suc_eq_0_disj)
    then show ?thesis
      using i(1,2) False by (intro exI[of _ "Suc i"]) simp
  qed
qed

lemma checkKeywordMatch_eq:
  "checkKeywordMatch P text ks =
     (if \<exists>k\<in>set ks. string_includes (toLowerCase P text) k
      then Some (hd (filter (string_includes (toLowerCase P text)) ks)) else None)"
  by (cases ks) (simp_all add: checkKeywordMatch_def keyword_loop_hd_filter Let_def del: keyword_loop.simps)


section \<open>Lemmas on the pipeline\<close>

text \<open>The three layers as one case distinction, once the settings are read.\<close>

lemma keyword_layer_eq:
  "keyword_layer P W settings text =
     (if keywordFilterEnabled settings
         \<and> (\<exists>k\<in>set (parseKeywords P (keywords_str settings)). string_includes (toLowerCase P text) k)
      then (Inr \<lparr>shouldBlock = True, matched_by = By_keyword,
                 matched_keyword =
                   Some (hd (filter (string_includes (toLowerCase P text))
                               (parseKeywords P (keywords_str settings)))),
                 error = None\<rparr>, [])
      else chinese_layer P W settings text)"
proof -
  let ?ks = "parseKeywords P (keywords_str settings)"
  let ?Q = "string_includes (toLowerCase P text)"
  show ?thesis
  proof (cases "keywordFilterEnabled settings \<and> (\<exists>k\<in>set ?ks. ?Q k)")
    case True
    then have ex: "\<exists>k\<in>set ?ks. ?Q k" by simp
    have "hd (filter ?Q ?ks) \<in> set ?ks" using hd_filter_in[OF ex] by simp
    then have ne: "hd (filter ?Q ?ks) \<noteq> []" using parseKeywords_nonempty by blast
    from ex have "?ks \<noteq> []" by auto
    then show ?thesis
      using True ne by (simp add: keyword_layer_def Let_def checkKeywordMatch_eq)
  next
    case False
    then show ?thesis
      by (auto simp: keyword_layer_def Let_def checkKeywordMatch_eq)
  qed
qed

lemma ai_shouldBlock_True: "ai_shouldBlock r \<Longrightarrow> r = AIAnalysisResult True"
  by (cases r) simp

lemma error_toString_nonempty: "error_toString e \<noteq> []"
  by (cases e; cases "err_name e") (auto simp: error_toString_def utf16_def)

lemma analyzeText_try_eq:
  assumes "getSettings W = Inr settings"
  shows "analyzeText_try P W text =
     (if keywordFilterEnabled settings
         \<and> (\<exists>k\<in>set (parseKeywords P (keywords_str settings)). string_includes (toLowerCase P text) k)
      then (Inr \<lparr>shouldBlock = True, matched_by = By_keyword,
             matched_keyword =
               Some (hd (filter (string_includes (toLowerCase P text))
                           (parseKeywords P (keywords_str settings)))),
             error = None\<rparr>, [])
      else if simplifiedChineseFilterEnabled settings \<and> isSimplifiedChinese P text
      then (Inr \<lparr>shouldBlock = True, matched_by = By_simplified_chinese,
             matched_keyword = None, error = None\<rparr>, [])
      else if \<not> aiFilterEnabled settings \<or> groqApiKey settings = []
      then (Inr \<lparr>shouldBlock = False, matched_by = By_none, matched_keyword = None, error = None\<rparr>, [])
      else (case analyzeWithGroq P W text (groqApiKey settings) (selectedModel settings)
                   (filterDescription_or_default settings) of
              Inl e \<Rightarrow>
                (Inl e,
                 [groq_request text (groqApiKey settings) (selectedModel settings)
                    (filterDescription_or_default settings)])
            | Inr r \<Rightarrow>
                (Inr \<lparr>shouldBlock = ai_shouldBlock r, matched_by = By_ai,
                  matched_keyword = None, error = None\<rparr>,
                 [groq_request text (groqApiKey settings) (selectedModel settings)
                    (filterDescription_or_default settings)])))"
  using assms
  by (simp add: analyzeText_try_def keyword_layer_eq chinese_layer_def
      ai_layer_def Let_def split: sum.splits)

lemma analyzeText_eq:
  assumes "getSettings W = Inr settings"
  shows "analyzeText P W text =
     (if keywordFilterEnabled settings
         \<and> (\<exists>k\<in>set (parseKeywords P (keywords_str settings)). string_includes (toLowerCase P text) k)
      then (\<lparr>shouldBlock = True, matched_by = By_keyword,
             matched_keyword =
               Some (hd (filter (string_includes (toLowerCase P text))
                           (parseKeywords P (keywords_str settings)))),
             error = None\<rparr>, [])
      else if simplifiedChineseFilterEnabled settings \<and> isSimplifiedChinese P text
      then (\<lparr>shouldBlock = True, matched_by = By_simplified_chinese,
             matched_keyword = None, error = None\<rparr>, [])
      else if \<not> aiFilterEnabled settings \<or> groqApiKey settings = []
      then (\<lparr>shouldBlock = False, matched_by = By_none, matched_keyword = None, error = None\<rparr>, [])
      else (case analyzeWithGroq P W text (groqApiKey settings) (selectedModel settings)
                   (filterDescription_or_default settings) of
              Inl e \<Rightarrow>
                (\<lparr>shouldBlock = False, matched_by = By_none, matched_keyword = None,
                  error = Some (error_toString e)\<rparr>,
                 [groq_request text (groqApiKey settings) (selectedModel settings)
                    (filterDescription_or_default settings)])
            | Inr r \<Rightarrow>
                (\<lparr>shouldBlock = ai_shouldBlock r, matched_by = By_ai,
                  matched_keyword = None, error = None\<rparr>,
                 [groq_request text (groqApiKey settings) (selectedModel settings)
                    (filterDescription_or_default settings)])))"
  using assms
  by (simp add: analyzeText_def analyzeText_try_def keyword_layer_eq chinese_layer_def
      ai_layer_def Let_def split: sum.splits)

lemma analyzeText_settings_error:
  assumes "getSettings W = Inl e"
  shows "analyzeText_try P W text = (Inl e, [])"
    and "analyzeText P W text =
          (\<lparr>shouldBlock = False, matched_by = By_none, matched_keyword = None,
            error = Some (error_toString e)\<rparr>, [])"
  using assms by (simp_all add: analyzeText_def analyzeText_try_def)

lemma ai_layer_not_keyword:
  "ai_layer P W settings text = (Inr v, sent) \<Longrightarrow> matched_by v \<noteq> By_keyword"
  by (auto simp: ai_layer_def Let_def split: if_splits sum.splits)

lemma chinese_layer_not_keyword:
  "chinese_layer P W settings text = (Inr v, sent) \<Longrightarrow> matched_by v \<noteq> By_keyword"
  by (auto simp: chinese_layer_def dest: ai_layer_not_keyword split: if_splits)

lemma analyzeText_not_keyword:
  assumes "getSettings W = Inr settings"
    and "\<not> (keywordFilterEnabled settings
         \<and> (\<exists>k\<in>set (parseKeywords P (keywords_str settings)). string_includes (toLowerCase P text) k))"
  shows "matched_by (fst (analyzeText P W text)) \<noteq> By_keyword"
proof (cases "chinese_layer P W settings text")
  case (Pair r sent)
  then show ?thesis
    using assms chinese_layer_not_keyword[where sent = sent]
    by (cases r) (auto simp: analyzeText_def analyzeText_try_def keyword_layer_eq)
qed


section \<open>The fail-open contract\<close>

text \<open>
  Claim C1. Whatever the settings read, the platform and the network do, \<open>analyzeText\<close>
  returns a verdict and never throws: what its \<open>try\<close> body returns is returned, and when
  the body throws any error \<open>e\<close> (from the settings read, the classifier or anything between
  them) the verdict is \<open>shouldBlock = false\<close>, \<open>matched_by = 'none'\<close> with the non-empty
  error string \<open>String(e)\<close>. A failing classifier call is such a throw. A verdict with
  \<open>shouldBlock = true\<close> carries no error and comes from a keyword match, from the
  Simplified Chinese detector answering true, or from a classifier call that succeeded with
  true.
\<close>

theorem analyzeText_fail_open:
  "(\<forall>v sent. analyzeText_try P W text = (Inr v, sent) \<longrightarrow> analyzeText P W text = (v, sent))
   \<and> (\<forall>e sent. analyzeText_try P W text = (Inl e, sent) \<longrightarrow>
       fst (analyzeText P W text) =
         \<lparr>shouldBlock = False, matched_by = By_none, matched_keyword = None,
           error = Some (error_toString e)\<rparr>
       \<and> error_toString e \<noteq> [])
   \<and> (\<forall>settings e. getSettings W = Inr settings \<and> snd (analyzeText P W text) \<noteq> []
         \<and> analyzeWithGroq P W text (groqApiKey settings) (selectedModel settings)
              (filterDescription_or_default settings) = Inl e \<longrightarrow>
       analyzeText_try P W text = (Inl e, snd (analyzeText P W text)))
   \<and> (shouldBlock (fst (analyzeText P W text)) \<longrightarrow>
        error (fst (analyzeText P W text)) = None
        \<and> (\<exists>settings. getSettings W = Inr settings
             \<and> (matched_by (fst (analyzeText P W text)) = By_keyword
                  \<and> keywordFilterEnabled settings
                  \<and> (\<exists>k. checkKeywordMatch P text (parseKeywords P (keywords_str settings)) = Some k
                         \<and> matched_keyword (fst (analyzeText P W text)) = Some k)
                \<or> matched_by (fst (analyzeText P W text)) = By_simplified_chinese
                  \<and> simplifiedChineseFilterEnabled settings
                  \<and> isSimplifiedChinese P text
                \<or> matched_by (fst (analyzeText P W text)) = By_ai
                  \<and> analyzeWithGroq P W text (groqApiKey settings) (selectedModel settings)
                       (filterDescription_or_default settings) = Inr (AIAnalysisResult True))))"
proof (intro conjI allI impI)
  fix v sent
  assume "analyzeText_try P W text = (Inr v, sent)"
  then show "analyzeText P W text = (v, sent)" by (simp add: analyzeText_def)
next
  fix e sent
  assume "analyzeText_try P W text = (Inl e, sent)"
  then show "fst (analyzeText P W text) =
         \<lparr>shouldBlock = False, matched_by = By_none, matched_keyword = None,
           error = Some (error_toString e)\<rparr>"
    by (simp add: analyzeText_def)
  show "error_toString e \<noteq> []" by (rule error_toString_nonempty)
next
  fix settings e
  assume h: "getSettings W = Inr settings \<and> snd (analyzeText P W text) \<noteq> []
         \<and> analyzeWithGroq P W text (groqApiKey settings) (selectedModel settings)
              (filterDescription_or_default settings) = Inl e"
  then show "analyzeText_try P W text = (Inl e, snd (analyzeText P W text))"
    by (auto simp: analyzeText_eq[of W settings] analyzeText_try_eq[of W settings] split: if_splits)
next
  assume b: "shouldBlock (fst (analyzeText P W text))"
  show "error (fst (analyzeText P W text)) = None"
  proof (cases "getSettings W")
    case (Inl e)
    then show ?thesis using b by (simp add: analyzeText_settings_error)
  next
    case (Inr settings)
    then show ?thesis using b
      by (auto simp: analyzeText_eq[of W settings] split: if_splits sum.splits)
  qed
next
  assume b: "shouldBlock (fst (analyzeText P W text))"
  show "\<exists>settings. getSettings W = Inr settings
             \<and> (matched_by (fst (analyzeText P W text)) = By_keyword
                  \<and> keywordFilterEnabled settings
                  \<and> (\<exists>k. checkKeywordMatch P text (parseKeywords P (keywords_str settings)) = Some k
                         \<and> matched_keyword (fst (analyzeText P W text)) = Some k)
                \<or> matched_by (fst (analyzeText P W text)) = By_simplified_chinese
                  \<and> simplifiedChineseFilterEnabled settings
                  \<and> isSimplifiedChinese P text
                \<or> matched_by (fst (analyzeText P W text)) = By_ai
                  \<and> analyzeWithGroq P W text (groqApiKey settings) (selectedModel settings)
                       (filterDescription_or_default settings) = Inr (AIAnalysisResult True))"
  proof (cases "getSettings W")
    case (Inl e)
    then show ?thesis using b by (simp add: analyzeText_settings_error)
  next
    case (Inr settings)
    have "matched_by (fst (analyzeText P W text)) = By_keyword
                  \<and> keywordFilterEnabled settings
                  \<and> (\<exists>k. checkKeywordMatch P text (parseKeywords P (keywords_str settings)) = Some k
                         \<and> matched_keyword (fst (analyzeText P W text)) = Some k)
                \<or> matched_by (fst (analyzeText P W text)) = By_simplified_chinese
                  \<and> simplifiedChineseFilterEnabled settings
                  \<and> isSimplifiedChinese P text
                \<or> matched_by (fst (analyzeText P W text)) = By_ai
                  \<and> analyzeWithGroq P W text (groqApiKey settings) (selectedModel settings)
                       (filterDescription_or_default settings) = Inr (AIAnalysisResult True)"
      using b
      by (auto simp: analyzeText_eq[OF Inr] checkKeywordMatch_eq dest: ai_shouldBlock_True
          split: if_splits sum.splits)
    then show ?thesis using Inr by blast
  qed
qed


text \<open>
  An HTTP 500 answer: the classifier call fails, the try body throws, the verdict is the
  fail-open one. An answer of true: the verdict blocks and carries no error.
\<close>

theorem analyzeText_fail_open_witness:
  "fst (analyzeText_try sample_platform
         (sample_world (DEFAULT_SETTINGS\<lparr>groqApiKey := utf16 ''gsk_test''\<rparr>)
            (Inr (Response 500 (Inr (utf16 ''Internal Server Error'')))))
         (utf16 ''Some harmless text''))
     = Inl (JsError Error (utf16 ''Groq API error: 500 - Internal Server Error''))
   \<and> fst (analyzeText sample_platform
         (sample_world (DEFAULT_SETTINGS\<lparr>groqApiKey := utf16 ''gsk_test''\<rparr>)
            (Inr (Response 500 (Inr (utf16 ''Internal Server Error'')))))
         (utf16 ''Some harmless text''))
     = \<lparr>shouldBlock = False, matched_by = By_none, matched_keyword = None,
        error = Some (utf16 ''Error: Groq API error: 500 - Internal Server Error'')\<rparr>
   \<and> shouldBlock (fst (analyzeText sample_platform
         (sample_world (DEFAULT_SETTINGS\<lparr>groqApiKey := utf16 ''gsk_test''\<rparr>)
            (Inr (Response 200 (Inr (chat_body reply_true)))))
         (utf16 ''Some harmless text'')))
   \<and> error (fst (analyzeText sample_platform
         (sample_world (DEFAULT_SETTINGS\<lparr>groqApiKey := utf16 ''gsk_test''\<rparr>)
            (Inr (Response 200 (Inr (chat_body reply_true)))))
         (utf16 ''Some harmless text''))) = None"
proof -
  let ?S = "DEFAULT_SETTINGS\<lparr>groqApiKey := utf16 ''gsk_test''\<rparr>"
  let ?W = "sample_world ?S (Inr (Response 500 (Inr (utf16 ''Internal Server Error''))))"
  let ?W' = "sample_world ?S (Inr (Response 200 (Inr (chat_body reply_true))))"
  let ?t = "utf16 ''Some harmless text''"
  let ?e = "JsError Error (utf16 ''Groq API error: 500 - Internal Server Error'')"
  have g: "getSettings ?W = Inr ?S" by (simp add: getSettings_def sample_world_def)
  have n: "snd (analyzeText sample_platform ?W ?t) \<noteq> []" by code_simp
  have f: "analyzeWithGroq sample_platform ?W ?t (groqApiKey ?S) (selectedModel ?S)
             (filterDescription_or_default ?S) = Inl ?e"
    by code_simp
  have t: "analyzeText_try sample_platform ?W ?t = (Inl ?e, snd (analyzeText sample_platform ?W ?t))"
    using analyzeText_fail_open[of sample_platform ?W ?t] g n f by blast
  then have a: "fst (analyzeText_try sample_platform ?W ?t) = Inl ?e" by simp
  have "fst (analyzeText sample_platform ?W ?t) =
          \<lparr>shouldBlock = False, matched_by = By_none, matched_keyword = None,
            error = Some (error_toString ?e)\<rparr>"
    using analyzeText_fail_open[of sample_platform ?W ?t] t by blast
  moreover have "error_toString ?e = utf16 ''Error: Groq API error: 500 - Internal Server Error''"
    by code_simp
  ultimately have b: "fst (analyzeText sample_platform ?W ?t) =
          \<lparr>shouldBlock = False, matched_by = By_none, matched_keyword = None,
            error = Some (utf16 ''Error: Groq API error: 500 - Internal Server Error'')\<rparr>"
    by simp
  have c: "shouldBlock (fst (analyzeText sample_platform ?W' ?t))" by code_simp
  then have d: "error (fst (analyzeText sample_platform ?W' ?t)) = None"
    using analyzeText_fail_open[of sample_platform ?W' ?t] by blast
  show ?thesis using a b c d by blast
qed

section \<open>The keyword layer wins and skips the classifier\<close>

text \<open>
  The keyword layer as the code decides it. With the keyword layer enabled, a non-empty parsed
  keyword list and a text whose lowercased form includes at least one parsed keyword,
  \<open>analyzeText\<close> returns \<open>shouldBlock = true\<close>, \<open>matched_by = 'keyword'\<close> and as
  \<open>matched_keyword\<close> the first keyword of the list that the lowercased text includes (no
  keyword before it in the list is included), and it sends no request to the classifier.
\<close>

lemma analyzeText_keyword_match:
  assumes "getSettings W = Inr settings"
    and "keywordFilterEnabled settings"
    and "ks = parseKeywords P (keywords_str settings)"
    and "ks \<noteq> []"
    and "\<exists>k\<in>set ks. string_includes (toLowerCase P text) k"
    and "k = hd (filter (string_includes (toLowerCase P text)) ks)"
  shows "analyzeText P W text =
           (\<lparr>shouldBlock = True, matched_by = By_keyword, matched_keyword = Some k,
             error = None\<rparr>, [])
       \<and> string_includes (toLowerCase P text) k
       \<and> (\<exists>i<length ks. ks ! i = k \<and> (\<forall>j<i. \<not> string_includes (toLowerCase P text) (ks ! j)))"
proof -
  have m: "checkKeywordMatch P text ks = Some k"
    using assms(5,6) by (simp add: checkKeywordMatch_eq)
  have k: "k \<in> set ks \<and> string_includes (toLowerCase P text) k"
    using hd_filter_in[OF assms(5)] assms(6) by simp
  then have ne: "k \<noteq> []" using assms(3) parseKeywords_nonempty by blast
  have "keyword_layer P W settings text =
          (Inr \<lparr>shouldBlock = True, matched_by = By_keyword, matched_keyword = Some k, error = None\<rparr>, [])"
    using assms(2,4) m ne assms(3)[symmetric] by (simp add: keyword_layer_def Let_def)
  then have "analyzeText P W text =
           (\<lparr>shouldBlock = True, matched_by = By_keyword, matched_keyword = Some k,
             error = None\<rparr>, [])"
    using assms(1) by (simp add: analyzeText_def analyzeText_try_def)
  then show ?thesis
    using k hd_filter_first[OF assms(5)] assms(6) by simp
qed


text \<open>The same on an example: the second keyword of the list, in another case, in the text.\<close>

lemma analyzeText_keyword_match_example:
  "analyzeText sample_platform
     (sample_world (DEFAULT_SETTINGS\<lparr>keywords_str := utf16 '' Hate, Spoiler '', groqApiKey := utf16 ''gsk_test''\<rparr>)
        (Inl (JsError TypeError (utf16 ''Failed to fetch''))))
     (utf16 ''Huge SPOILER: he dies'')
   = (\<lparr>shouldBlock = True, matched_by = By_keyword,
       matched_keyword = Some (utf16 ''spoiler''), error = None\<rparr>, [])"
proof -
  let ?S = "DEFAULT_SETTINGS\<lparr>keywords_str := utf16 '' Hate, Spoiler '', groqApiKey := utf16 ''gsk_test''\<rparr>"
  let ?W = "sample_world ?S (Inl (JsError TypeError (utf16 ''Failed to fetch'')))"
  let ?t = "utf16 ''Huge SPOILER: he dies''"
  let ?ks = "[utf16 ''hate'', utf16 ''spoiler'']"
  have h1: "getSettings ?W = Inr ?S" by (simp add: getSettings_def sample_world_def)
  have h2: "keywordFilterEnabled ?S" by (simp add: DEFAULT_SETTINGS_def)
  have h3: "?ks = parseKeywords sample_platform (keywords_str ?S)" by code_simp
  have h4: "?ks \<noteq> []" by simp
  have h5: "\<exists>k\<in>set ?ks. string_includes (toLowerCase sample_platform ?t) k" by code_simp
  have h6: "utf16 ''spoiler'' = hd (filter (string_includes (toLowerCase sample_platform ?t)) ?ks)"
    by code_simp
  show ?thesis using analyzeText_keyword_match[OF h1 h2 h3 h4 h5 h6] by blast
qed


text \<open>
  When lowercasing works character by character (the lowercased form of a concatenation is
  the concatenation of the lowercased forms), an occurrence in the text of a string that
  equals a keyword up to case is found, and the text is blocked without a request.
\<close>

lemma case_insensitive_substring_matched:
  assumes "\<And>a b. toLowerCase P (a @ b) = toLowerCase P a @ toLowerCase P b"
    and "text = a @ u @ b" and "toLowerCase P u = k"
  shows "string_includes (toLowerCase P text) k"
  unfolding string_includes_iff using assms by metis

lemma analyzeText_keyword_match_letterwise:
  assumes "\<And>a b. toLowerCase P (a @ b) = toLowerCase P a @ toLowerCase P b"
    and "getSettings W = Inr settings"
    and "keywordFilterEnabled settings"
    and "text = a @ u @ b"
    and "toLowerCase P u \<in> set (parseKeywords P (keywords_str settings))"
  shows "\<exists>k\<in>set (parseKeywords P (keywords_str settings)).
           analyzeText P W text =
             (\<lparr>shouldBlock = True, matched_by = By_keyword, matched_keyword = Some k,
               error = None\<rparr>, [])"
proof -
  let ?ks = "parseKeywords P (keywords_str settings)"
  let ?k = "hd (filter (string_includes (toLowerCase P text)) ?ks)"
  have i: "string_includes (toLowerCase P text) (toLowerCase P u)"
    using case_insensitive_substring_matched[OF assms(1) assms(4) refl] .
  then have e: "\<exists>k\<in>set ?ks. string_includes (toLowerCase P text) k"
    using assms(5) by blast
  have ne: "?ks \<noteq> []" using assms(5) by auto
  have "analyzeText P W text =
          (\<lparr>shouldBlock = True, matched_by = By_keyword, matched_keyword = Some ?k,
            error = None\<rparr>, [])"
    using analyzeText_keyword_match[OF assms(2,3) refl ne e refl] by blast
  moreover have "?k \<in> set ?ks" using hd_filter_in[OF e] by blast
  ultimately show ?thesis by blast
qed


text \<open>
  Claim C2. The claim fails on the code where lowercasing depends on the context of a
  letter. \<open>toLowerCase\<close> turns a capital sigma at the end of a word into the final sigma
  (U+03C2) and any other into the small sigma (U+03C3). With the keyword layer enabled and
  the one keyword U+039F U+0394 U+039F U+03A3, parsed and lowercased to U+03BF U+03B4 U+03BF
  U+03C2, the text U+039F U+0394 U+039F U+03A3 U+0391 contains the keyword as configured,
  letter for letter; its lowercased form U+03BF U+03B4 U+03BF U+03C3 U+03B1 does not include
  the lowercased keyword. \<open>analyzeText\<close> passes the keyword layer: with no API key it
  returns \<open>shouldBlock = false\<close>, \<open>matched_by = 'none'\<close>, and with an API key it sends the
  text to the classifier.
\<close>

theorem analyzeText_final_sigma_not_blocked:
  "keywordFilterEnabled (DEFAULT_SETTINGS\<lparr>keywords_str := [0x039F, 0x0394, 0x039F, 0x03A3]\<rparr>)
   \<and> parseKeywords greek_platform [0x039F, 0x0394, 0x039F, 0x03A3]
       = [[0x03BF, 0x03B4, 0x03BF, 0x03C2]]
   \<and> string_includes [0x039F, 0x0394, 0x039F, 0x03A3, 0x0391] [0x039F, 0x0394, 0x039F, 0x03A3]
   \<and> toLowerCase greek_platform [0x039F, 0x0394, 0x039F, 0x03A3, 0x0391]
       = [0x03BF, 0x03B4, 0x03BF, 0x03C3, 0x03B1]
   \<and> analyzeText greek_platform
        (sample_world (DEFAULT_SETTINGS\<lparr>keywords_str := [0x039F, 0x0394, 0x039F, 0x03A3]\<rparr>)
           (Inl (JsError TypeError (utf16 ''Failed to fetch''))))
        [0x039F, 0x0394, 0x039F, 0x03A3, 0x0391]
      = (\<lparr>shouldBlock = False, matched_by = By_none, matched_keyword = None, error = None\<rparr>, [])
   \<and> matched_by (fst (analyzeText greek_platform
        (sample_world (DEFAULT_SETTINGS\<lparr>keywords_str := [0x039F, 0x0394, 0x039F, 0x03A3],
             groqApiKey := utf16 ''gsk_test''\<rparr>)
           (Inl (JsError TypeError (utf16 ''Failed to fetch''))))
        [0x039F, 0x0394, 0x039F, 0x03A3, 0x0391])) = By_none
   \<and> length (snd (analyzeText greek_platform
        (sample_world (DEFAULT_SETTINGS\<lparr>keywords_str := [0x039F, 0x0394, 0x039F, 0x03A3],
             groqApiKey := utf16 ''gsk_test''\<rparr>)
           (Inl (JsError TypeError (utf16 ''Failed to fetch''))))
        [0x039F, 0x0394, 0x039F, 0x03A3, 0x0391])) = 1"
  by code_simp

section \<open>The Simplified Chinese detector\<close>

lemma length_filter_enumerate:
  "length (filter (\<lambda>(i, c). Q i c) (enumerate 0 xs)) = card {i. i < length xs \<and> Q i (xs ! i)}"
proof -
  have "{i. i < length (enumerate 0 xs) \<and> (\<lambda>(i, c). Q i c) (enumerate 0 xs ! i)}
        = {i. i < length xs \<and> Q i (xs ! i)}"
    by (auto simp: nth_enumerate_eq)
  then show ?thesis
    by (simp add: length_filter_conv_card)
qed

lemma card_cjkPositions: "card (cjkPositions text) = length (filter isChineseChar text)"
  by (simp add: cjkPositions_def isChineseChar_def length_filter_conv_card)

lemma card_differingPositions:
  "card (differingPositions text converted) =
     length (filter (\<lambda>(i, c). \<not> (i < length (spread converted) \<and> spread converted ! i = c))
               (enumerate 0 (spread text)))"
  unfolding differingPositions_def
  by (rule length_filter_enumerate[symmetric])

text \<open>With fewer than 3 code units in the CJK range the detector answers false.\<close>

lemma isSimplifiedChinese_few: "card (cjkPositions text) < 3 \<Longrightarrow> \<not> isSimplifiedChinese P text"
  by (simp add: isSimplifiedChinese_def Let_def card_cjkPositions)

text \<open>
  Where the text and its conversions have no character outside the Basic Multilingual
  Plane, a character is a code unit, the counts of the code are the counts of differing
  characters, and the detector answers as the specification says.
\<close>

lemma spread_bmp: "\<forall>c\<in>set s. \<not> isHighSurrogate c \<Longrightarrow> spread s = map (\<lambda>c. [c]) s"
  by (induction s rule: spread.induct) simp_all

lemma diffCount_bmp:
  assumes "\<forall>c\<in>set text. \<not> isHighSurrogate c" and "\<forall>c\<in>set converted. \<not> isHighSurrogate c"
  shows "diffCount text converted = card (differingPositions text converted)"
proof -
  have "diffCount text converted
      = card {i. i < length (spread text) \<and> Some (spread text ! i) \<noteq> charAt converted i}"
    unfolding diffCount_def by (rule length_filter_enumerate)
  also have "{i. i < length (spread text) \<and> Some (spread text ! i) \<noteq> charAt converted i}
      = differingPositions text converted"
    unfolding differingPositions_def spread_bmp[OF assms(1)] spread_bmp[OF assms(2)]
    by (auto simp: charAt_def)
  finally show ?thesis .
qed

lemma isSimplifiedChinese_bmp:
  assumes "\<forall>c\<in>set text. \<not> isHighSurrogate c"
    and "\<forall>c\<in>set (converterS2T P text). \<not> isHighSurrogate c"
    and "\<forall>c\<in>set (converterT2S P text). \<not> isHighSurrogate c"
  shows "isSimplifiedChinese P text \<longleftrightarrow> isSimplifiedChinese_spec P text"
  by (auto simp: isSimplifiedChinese_def isSimplifiedChinese_spec_def Let_def card_cjkPositions
      diffCount_bmp[OF assms(1,2)] diffCount_bmp[OF assms(1,3)])

lemma isSimplifiedChinese_bmp_example:
  "isSimplifiedChinese sample_platform [0x6C49, 0x8BED, 0x7B80, 0x4F53, 0x5B57]
   \<and> isSimplifiedChinese_spec sample_platform [0x6C49, 0x8BED, 0x7B80, 0x4F53, 0x5B57]
   \<and> \<not> isSimplifiedChinese sample_platform [0x6F22, 0x8A9E, 0x7C21, 0x9AD4, 0x5B57]
   \<and> \<not> isSimplifiedChinese_spec sample_platform [0x6F22, 0x8A9E, 0x7C21, 0x9AD4, 0x5B57]"
  unfolding isSimplifiedChinese_spec_def card_cjkPositions card_differingPositions
  by code_simp


text \<open>
  Claim C3. The claim fails on the code for a text with a character outside the Basic
  Multilingual Plane before its Chinese characters. The text is U+1F600 (the code units
  D83D DE00) followed by the five Simplified characters U+6C49 U+8BED U+7B80 U+4F53 U+5B57.
  It has 5 characters in the CJK range; character by character it differs from its
  Simplified-to-Traditional conversion at 4 positions and from its Traditional-to-Simplified
  conversion, which is the text itself, at none: by the claim the detector answers true.
  The code compares the \<open>i\<close>-th character of \<open>[...text]\<close> with the \<open>i\<close>-th code unit of the
  conversion: after the surrogate pair every index is off by one, both counts are 6, and
  \<open>isSimplifiedChinese\<close> answers false.
\<close>

theorem isSimplifiedChinese_misses_after_astral:
  "3 \<le> card (cjkPositions [0xD83D, 0xDE00, 0x6C49, 0x8BED, 0x7B80, 0x4F53, 0x5B57])
   \<and> converterT2S sample_platform [0xD83D, 0xDE00, 0x6C49, 0x8BED, 0x7B80, 0x4F53, 0x5B57]
       = [0xD83D, 0xDE00, 0x6C49, 0x8BED, 0x7B80, 0x4F53, 0x5B57]
   \<and> card (differingPositions [0xD83D, 0xDE00, 0x6C49, 0x8BED, 0x7B80, 0x4F53, 0x5B57]
        (converterS2T sample_platform [0xD83D, 0xDE00, 0x6C49, 0x8BED, 0x7B80, 0x4F53, 0x5B57])) = 4
   \<and> card (differingPositions [0xD83D, 0xDE00, 0x6C49, 0x8BED, 0x7B80, 0x4F53, 0x5B57]
        (converterT2S sample_platform [0xD83D, 0xDE00, 0x6C49, 0x8BED, 0x7B80, 0x4F53, 0x5B57])) = 0
   \<and> isSimplifiedChinese_spec sample_platform [0xD83D, 0xDE00, 0x6C49, 0x8BED, 0x7B80, 0x4F53, 0x5B57]
   \<and> diffCount [0xD83D, 0xDE00, 0x6C49, 0x8BED, 0x7B80, 0x4F53, 0x5B57]
        (converterS2T sample_platform [0xD83D, 0xDE00, 0x6C49, 0x8BED, 0x7B80, 0x4F53, 0x5B57]) = 6
   \<and> diffCount [0xD83D, 0xDE00, 0x6C49, 0x8BED, 0x7B80, 0x4F53, 0x5B57]
        (converterT2S sample_platform [0xD83D, 0xDE00, 0x6C49, 0x8BED, 0x7B80, 0x4F53, 0x5B57]) = 6
   \<and> \<not> isSimplifiedChinese sample_platform [0xD83D, 0xDE00, 0x6C49, 0x8BED, 0x7B80, 0x4F53, 0x5B57]"
  unfolding isSimplifiedChinese_spec_def card_cjkPositions card_differingPositions
  by code_simp

section \<open>The Simplified Chinese layer in the pipeline\<close>

text \<open>
  Claim C5, as the code has it. With the Simplified Chinese layer enabled and no keyword
  match, a text the detector answers true for gets the verdict \<open>shouldBlock = true\<close> with no
  request sent, and the provenance written into \<open>matched_by\<close> is the string
  \<open>'simplified-chinese'\<close>.
\<close>

theorem analyzeText_simplified_chinese:
  assumes "getSettings W = Inr settings"
    and "simplifiedChineseFilterEnabled settings"
    and "\<not> (keywordFilterEnabled settings
          \<and> (\<exists>k\<in>set (parseKeywords P (keywords_str settings)). string_includes (toLowerCase P text) k))"
    and "isSimplifiedChinese P text"
  shows "analyzeText P W text =
           (\<lparr>shouldBlock = True, matched_by = By_simplified_chinese,
             matched_keyword = None, error = None\<rparr>, [])
         \<and> matched_by_literal (matched_by (fst (analyzeText P W text))) = utf16 ''simplified-chinese''"
  using assms by (simp add: analyzeText_eq[of W settings])

theorem analyzeText_simplified_chinese_witness:
  "analyzeText sample_platform
     (sample_world (DEFAULT_SETTINGS\<lparr>simplifiedChineseFilterEnabled := True\<rparr>)
        (Inl (JsError TypeError (utf16 ''Failed to fetch''))))
     [0x6C49, 0x8BED, 0x7B80, 0x4F53, 0x5B57]
   = (\<lparr>shouldBlock = True, matched_by = By_simplified_chinese,
       matched_keyword = None, error = None\<rparr>, [])"
proof -
  let ?S = "DEFAULT_SETTINGS\<lparr>simplifiedChineseFilterEnabled := True\<rparr>"
  let ?W = "sample_world ?S (Inl (JsError TypeError (utf16 ''Failed to fetch'')))"
  let ?t = "[0x6C49, 0x8BED, 0x7B80, 0x4F53, 0x5B57] :: jsstring"
  have h1: "getSettings ?W = Inr ?S" by (simp add: getSettings_def sample_world_def)
  have h2: "simplifiedChineseFilterEnabled ?S" by simp
  have h3: "\<not> (keywordFilterEnabled ?S
          \<and> (\<exists>k\<in>set (parseKeywords sample_platform (keywords_str ?S)).
                string_includes (toLowerCase sample_platform ?t) k))"
    by code_simp
  have h4: "isSimplifiedChinese sample_platform ?t" by code_simp
  show ?thesis using analyzeText_simplified_chinese[OF h1 h2 h3 h4] by simp
qed


text \<open>
  The provenance of that verdict is not the string \<open>'script'\<close>: for the settings
  \<open>{keywords: "", simplifiedChineseFilterEnabled: true}\<close> and a text of five Simplified
  characters, the verdict blocks and its \<open>matched_by\<close> differs from \<open>'script'\<close>.
\<close>

theorem matched_by_not_script:
  "shouldBlock (fst (analyzeText sample_platform
     (sample_world (DEFAULT_SETTINGS\<lparr>simplifiedChineseFilterEnabled := True\<rparr>)
        (Inl (JsError TypeError (utf16 ''Failed to fetch''))))
     [0x6C49, 0x8BED, 0x7B80, 0x4F53, 0x5B57]))
   \<and> matched_by_literal (matched_by (fst (analyzeText sample_platform
     (sample_world (DEFAULT_SETTINGS\<lparr>simplifiedChineseFilterEnabled := True\<rparr>)
        (Inl (JsError TypeError (utf16 ''Failed to fetch''))))
     [0x6C49, 0x8BED, 0x7B80, 0x4F53, 0x5B57])))
     \<noteq> utf16 ''script''"
  by code_simp


section \<open>The classifier's outcomes\<close>

lemma truthy_iff:
  "truthy v \<longleftrightarrow>
     v \<notin> {None, Some JNull, Some (JBool False), Some (JNumber (Finite 0)), Some (JString [])}"
proof (cases v)
  case None
  then show ?thesis by simp
next
  case (Some j)
  show ?thesis
  proof (cases j)
    case (JNumber n)
    then show ?thesis using Some by (cases n) auto
  qed (use Some in auto)
qed

lemma parse_reply_located:
  "located_json P (Some content) = Some parsed \<Longrightarrow>
     parse_reply P content = Inr (AIAnalysisResult (truthy (getProp parsed (utf16 ''shouldBlock''))))"
  by (auto simp: parse_reply_def parse_try_def located_json_def
      split: json.splits option.splits sum.splits if_splits)

lemma parse_reply_not_located:
  "located_json P (Some content) = None \<Longrightarrow> \<exists>e. parse_reply P content = Inl e"
  by (auto simp: parse_reply_def parse_try_def located_json_def
      split: json.splits option.splits sum.splits if_splits)

lemma analyzeWithGroq_error_iff:
  assumes "req = groq_request text apiKey model description"
  shows "(\<exists>e. analyzeWithGroq P W text apiKey model description = Inl e) \<longleftrightarrow>
           http_failed W req \<or> \<not> truthy (reply_content P W req)
           \<or> located_json P (reply_content P W req) = None"
proof (cases "located_json P (reply_content P W req)")
  case None
  then show ?thesis
    unfolding assms analyzeWithGroq_def http_failed_def reply_content_def
    using parse_reply_not_located[of P]
    by (auto split: sum.splits option.splits)
next
  case (Some parsed)
  then show ?thesis
    unfolding assms analyzeWithGroq_def http_failed_def reply_content_def
    using parse_reply_located[of P _ parsed]
    by (auto split: sum.splits option.splits)
qed

lemma analyzeWithGroq_success:
  assumes "req = groq_request text apiKey model description"
    and "\<not> http_failed W req" and "truthy (reply_content P W req)"
    and "located_json P (reply_content P W req) = Some parsed"
  shows "analyzeWithGroq P W text apiKey model description =
           Inr (AIAnalysisResult (truthy (getProp parsed (utf16 ''shouldBlock''))))"
  using assms(2-) parse_reply_located[of P _ parsed]
  unfolding assms(1) analyzeWithGroq_def http_failed_def reply_content_def
  by (auto split: sum.splits option.splits)

text \<open>
  Claim C6, as the code has it. \<open>analyzeWithGroq\<close> throws exactly when there is no successful
  HTTP answer, the answer has no content, or no JSON object can be located and parsed in the
  reply. When a JSON object is located and parsed, it never throws, and its verdict is the
  JavaScript truthiness of the object's \<open>shouldBlock\<close> property: false when the property is
  missing, \<open>null\<close>, \<open>false\<close>, \<open>0\<close> or the empty string, and true for every other value.
\<close>

theorem analyzeWithGroq_outcome:
  assumes "req = groq_request text apiKey model description"
  shows "((\<exists>e. analyzeWithGroq P W text apiKey model description = Inl e) \<longleftrightarrow>
            http_failed W req \<or> \<not> truthy (reply_content P W req)
            \<or> located_json P (reply_content P W req) = None)
       \<and> (\<forall>parsed. \<not> http_failed W req \<and> truthy (reply_content P W req)
             \<and> located_json P (reply_content P W req) = Some parsed \<longrightarrow>
           analyzeWithGroq P W text apiKey model description =
             Inr (AIAnalysisResult
                    (getProp parsed (utf16 ''shouldBlock'')
                       \<notin> {None, Some JNull, Some (JBool False), Some (JNumber (Finite 0)),
                           Some (JString [])})))"
  using analyzeWithGroq_error_iff[OF assms] analyzeWithGroq_success[OF assms]
  by (simp add: truthy_iff)

theorem analyzeWithGroq_outcome_witness:
  "\<not> http_failed (sample_world DEFAULT_SETTINGS (Inr (Response 200 (Inr (chat_body reply_true)))))
        (groq_request (utf16 ''Some harmless text'') (utf16 ''gsk_test'') (utf16 ''llama'') (utf16 ''spoilers''))
   \<and> analyzeWithGroq sample_platform
        (sample_world DEFAULT_SETTINGS (Inr (Response 200 (Inr (chat_body reply_true)))))
        (utf16 ''Some harmless text'') (utf16 ''gsk_test'') (utf16 ''llama'') (utf16 ''spoilers'')
      = Inr (AIAnalysisResult True)"
proof -
  let ?W = "sample_world DEFAULT_SETTINGS (Inr (Response 200 (Inr (chat_body reply_true))))"
  let ?req = "groq_request (utf16 ''Some harmless text'') (utf16 ''gsk_test'') (utf16 ''llama'') (utf16 ''spoilers'')"
  let ?parsed = "JObject [(utf16 ''shouldBlock'', JBool True)]"
  have h1: "\<not> http_failed ?W ?req" by (simp add: http_failed_def sample_world_def resp_ok_def)
  have h2: "truthy (reply_content sample_platform ?W ?req)" by code_simp
  have h3: "located_json sample_platform (reply_content sample_platform ?W ?req) = Some ?parsed"
    by code_simp
  have h4: "getProp ?parsed (utf16 ''shouldBlock'')
       \<notin> {None, Some JNull, Some (JBool False), Some (JNumber (Finite 0)), Some (JString [])}"
    by (simp add: utf16_def)
  show ?thesis
    using analyzeWithGroq_outcome[of ?req _ _ _ _ sample_platform ?W, OF refl] h1 h2 h3 h4
    by simp
qed


text \<open>
  A malformed field can block: the reply \<open>{"shouldBlock": "false"}\<close> is located and parsed,
  its \<open>shouldBlock\<close> is a string and not a boolean, and the verdict is \<open>shouldBlock = true\<close>.
\<close>

theorem analyzeWithGroq_string_false_blocks:
  "located_json sample_platform
     (reply_content sample_platform
        (sample_world DEFAULT_SETTINGS (Inr (Response 200 (Inr (chat_body reply_string_false)))))
        (groq_request (utf16 ''Some harmless text'') (utf16 ''gsk_test'') (utf16 ''llama'') (utf16 ''spoilers'')))
     = Some (JObject [(utf16 ''shouldBlock'', JString (utf16 ''false''))])
   \<and> analyzeWithGroq sample_platform
        (sample_world DEFAULT_SETTINGS (Inr (Response 200 (Inr (chat_body reply_string_false)))))
        (utf16 ''Some harmless text'') (utf16 ''gsk_test'') (utf16 ''llama'') (utf16 ''spoilers'')
      = Inr (AIAnalysisResult True)"
  by code_simp


section \<open>The matched keyword is the normalized one\<close>

text \<open>
  Claim C10. When the verdict's provenance is the keyword layer, \<open>matched_keyword\<close> is the
  trimmed and lowercased form of one of the comma-separated pieces of the configured keywords
  string, whatever the casing of the configuration or of the text. And a keywords string made
  of commas and whitespace only parses to the empty list, so that the keyword layer does not
  block (given that lowercasing the empty string gives the empty string).
\<close>

theorem matched_keyword_normalized:
  assumes "getSettings W = Inr settings"
  shows "(matched_by (fst (analyzeText P W text)) = By_keyword \<longrightarrow>
            (\<exists>raw\<in>set (split 0x2C (keywords_str settings)).
               matched_keyword (fst (analyzeText P W text)) = Some (toLowerCase P (trim raw))))
       \<and> (toLowerCase P [] = [] \<and> (\<forall>c\<in>set (keywords_str settings). c = 0x2C \<or> isWhiteSpace c) \<longrightarrow>
            parseKeywords P (keywords_str settings) = []
            \<and> matched_by (fst (analyzeText P W text)) \<noteq> By_keyword)"
proof (intro conjI impI)
  let ?ks = "parseKeywords P (keywords_str settings)"
  let ?Q = "string_includes (toLowerCase P text)"
  assume kw: "matched_by (fst (analyzeText P W text)) = By_keyword"
  then have ex: "keywordFilterEnabled settings \<and> (\<exists>k\<in>set ?ks. ?Q k)"
    using analyzeText_not_keyword[OF assms] by blast
  then have "hd (filter ?Q ?ks) \<in> set ?ks" using hd_filter_in[of ?ks ?Q] by simp
  then obtain raw where "raw \<in> set (split 0x2C (keywords_str settings))"
    and "hd (filter ?Q ?ks) = toLowerCase P (trim raw)"
    using parseKeywords_in by blast
  moreover have "matched_keyword (fst (analyzeText P W text)) = Some (hd (filter ?Q ?ks))"
    using assms ex by (simp add: analyzeText_def analyzeText_try_def keyword_layer_eq)
  ultimately show "\<exists>raw\<in>set (split 0x2C (keywords_str settings)).
      matched_keyword (fst (analyzeText P W text)) = Some (toLowerCase P (trim raw))"
    by auto
next
  assume h: "toLowerCase P [] = [] \<and> (\<forall>c\<in>set (keywords_str settings). c = 0x2C \<or> isWhiteSpace c)"
  then show "parseKeywords P (keywords_str settings) = []"
    using parseKeywords_commas_whitespace by blast
next
  assume h: "toLowerCase P [] = [] \<and> (\<forall>c\<in>set (keywords_str settings). c = 0x2C \<or> isWhiteSpace c)"
  then have "parseKeywords P (keywords_str settings) = []"
    using parseKeywords_commas_whitespace by blast
  then show "matched_by (fst (analyzeText P W text)) \<noteq> By_keyword"
    using analyzeText_not_keyword[OF assms] by simp
qed

theorem matched_keyword_normalized_witness:
  "matched_by (fst (analyzeText sample_platform
      (sample_world (DEFAULT_SETTINGS\<lparr>keywords_str := utf16 '' Hate, Spoiler ''\<rparr>)
         (Inl (JsError TypeError (utf16 ''Failed to fetch''))))
      (utf16 ''Huge SPOILER: he dies''))) = By_keyword
   \<and> (\<exists>raw\<in>set (split 0x2C (utf16 '' Hate, Spoiler '')).
        matched_keyword (fst (analyzeText sample_platform
          (sample_world (DEFAULT_SETTINGS\<lparr>keywords_str := utf16 '' Hate, Spoiler ''\<rparr>)
             (Inl (JsError TypeError (utf16 ''Failed to fetch''))))
          (utf16 ''Huge SPOILER: he dies''))) = Some (toLowerCase sample_platform (trim raw)))
   \<and> parseKeywords sample_platform (utf16 '' , ,'') = []
   \<and> matched_by (fst (analyzeText sample_platform
      (sample_world (DEFAULT_SETTINGS\<lparr>keywords_str := utf16 '' , ,''\<rparr>)
         (Inl (JsError TypeError (utf16 ''Failed to fetch''))))
      (utf16 ''a, b''))) \<noteq> By_keyword"
proof -
  let ?S1 = "DEFAULT_SETTINGS\<lparr>keywords_str := utf16 '' Hate, Spoiler ''\<rparr>"
  let ?S2 = "DEFAULT_SETTINGS\<lparr>keywords_str := utf16 '' , ,''\<rparr>"
  let ?W1 = "sample_world ?S1 (Inl (JsError TypeError (utf16 ''Failed to fetch'')))"
  let ?W2 = "sample_world ?S2 (Inl (JsError TypeError (utf16 ''Failed to fetch'')))"
  have g1: "getSettings ?W1 = Inr ?S1" by (simp add: getSettings_def sample_world_def)
  have g2: "getSettings ?W2 = Inr ?S2" by (simp add: getSettings_def sample_world_def)
  have k: "matched_by (fst (analyzeText sample_platform ?W1 (utf16 ''Huge SPOILER: he dies''))) = By_keyword"
    by code_simp
  have l: "toLowerCase sample_platform [] = []"
    by (simp add: sample_platform_def ascii_toLowerCase_def)
  have w: "\<forall>c\<in>set (keywords_str ?S2). c = 0x2C \<or> isWhiteSpace c"
    by (simp add: utf16_def isWhiteSpace_def)
  show ?thesis
    using matched_keyword_normalized[OF g1, of sample_platform "utf16 ''Huge SPOILER: he dies''"]
      matched_keyword_normalized[OF g2, of sample_platform "utf16 ''a, b''"] k l w
    by simp
qed

section \<open>The content hash\<close>

lemma toInt32_range: "- (2 ^ 31) \<le> toInt32 x \<and> toInt32 x < 2 ^ 31"
proof -
  have "0 \<le> (x + 2 ^ 31) mod 2 ^ 32" "(x + 2 ^ 31) mod 2 ^ 32 < (2 ^ 32 :: int)"
    by simp_all
  then show ?thesis unfolding toInt32_def by simp
qed

lemma foldl_hash_step_range:
  "- (2 ^ 31) \<le> h \<Longrightarrow> h < 2 ^ 31 \<Longrightarrow>
     - (2 ^ 31) \<le> foldl hash_step h text \<and> foldl hash_step h text < 2 ^ 31"
proof (induction "text" arbitrary: h)
  case Nil
  then show ?case by simp
next
  case (Cons c cs)
  have "- (2 ^ 31) \<le> hash_step h c" "hash_step h c < 2 ^ 31"
    using toInt32_range unfolding hash_step_def by blast+
  then show ?case using Cons.IH by simp
qed

lemma hash_value_range: "- (2 ^ 31) \<le> hash_value text \<and> hash_value text < 2 ^ 31"
  unfolding hash_value_def by (rule foldl_hash_step_range) simp_all

lemma digits36_nonempty: "1 \<le> length (digits36 n)"
  by (subst digits36.simps) simp

lemma digits36_length: "0 < k \<Longrightarrow> n < 36 ^ k \<Longrightarrow> length (digits36 n) \<le> k"
proof (induction k arbitrary: n)
  case 0
  then show ?case by simp
next
  case (Suc k)
  show ?case
  proof (cases "n < 36")
    case True
    then show ?thesis by (subst digits36.simps) simp
  next
    case False
    then have k: "0 < k" using Suc.prems(2) by (cases k) auto
    have "n div 36 < 36 ^ k" using Suc.prems(2) by (simp add: less_mult_imp_div_less mult.commute)
    then have "length (digits36 (n div 36)) \<le> k" using Suc.IH k by blast
    then show ?thesis using False by (subst digits36.simps) simp
  qed
qed

lemma toString36_length:
  assumes "- (2 ^ 31) \<le> n" and "n < 2 ^ 31"
  shows "1 \<le> length (toString36 n) \<and> length (toString36 n) \<le> 7"
proof (cases "n < 0")
  case True
  have "nat (- n) < 36 ^ 6" using assms by simp
  then have "length (digits36 (nat (- n))) \<le> 6" by (intro digits36_length) simp_all
  then show ?thesis using True by (simp add: toString36_def)
next
  case False
  have "nat n < 36 ^ 6" using assms by simp
  then have "length (digits36 (nat n)) \<le> 6" by (intro digits36_length) simp_all
  then show ?thesis using False digits36_nonempty[of "nat n"] by (simp add: toString36_def)
qed


text \<open>
  Claim C8, as the code has it. \<open>hashText\<close> is a function of the whole text: every code unit
  enters the hash in turn, the hash is a signed 32-bit integer (a value of fixed width), and
  the result is that integer written in base 36, a string of 1 to 7 characters. Equal texts
  have equal hashes.
\<close>

theorem hashText_fingerprint:
  "1 \<le> length (hashText text) \<and> length (hashText text) \<le> 7
   \<and> - (2 ^ 31) \<le> hash_value text \<and> hash_value text < 2 ^ 31
   \<and> hashText text = toString36 (hash_value text)
   \<and> hash_value (text @ [c]) = hash_step (hash_value text) c
   \<and> (text = text' \<longrightarrow> hashText text = hashText text')"
proof -
  have r: "- (2 ^ 31) \<le> hash_value text" "hash_value text < 2 ^ 31"
    using hash_value_range by blast+
  have "1 \<le> length (toString36 (hash_value text)) \<and> length (toString36 (hash_value text)) \<le> 7"
    using toString36_length[OF r] .
  then show ?thesis
    using r by (simp add: hashText_def hash_value_def)
qed


theorem hashText_fingerprint_witness:
  "hashText (utf16 ''Huge spoiler: he dies'') = hashText (utf16 ''Huge spoiler: he dies'')
   \<and> 1 \<le> length (hashText (utf16 ''Huge spoiler: he dies''))
   \<and> length (hashText (utf16 ''Huge spoiler: he dies'')) \<le> 7"
  using hashText_fingerprint[of "utf16 ''Huge spoiler: he dies''" _ "utf16 ''Huge spoiler: he dies''"]
  by blast

text \<open>
  The length of the result is not fixed: the empty text hashes to \<open>"0"\<close> and the text
  \<open>"a"\<close> to \<open>"2p"\<close>.
\<close>

lemmas hash_eval = hashText_def hash_value_def hash_step_def toInt32_def utf16_def toString36_def
  digits36.simps digit36_def

theorem hashText_length_varies:
  "hashText [] = utf16 ''0'' \<and> hashText (utf16 ''a'') = utf16 ''2p''
   \<and> length (hashText []) \<noteq> length (hashText (utf16 ''a''))"
  by (simp add: hash_eval)


section \<open>Batches of five\<close>

lemma slice_batch: "slice i (i + batchSize) xs = take batchSize (drop i xs)"
  by (simp add: slice_def)

lemma batches_concat: "concat (batches (processElements_from i xs)) = drop i xs"
proof (induction i xs rule: processElements_from.induct)
  case (1 i elements)
  show ?case
  proof (cases "i < length elements")
    case True
    have "take batchSize (drop i elements) @ drop (i + batchSize) elements = drop i elements"
      by (metis add.commute append_take_drop_id drop_drop)
    then show ?thesis
      using True 1 by (subst processElements_from.simps) (simp add: Let_def slice_batch)
  next
    case False
    then show ?thesis by (subst processElements_from.simps) simp
  qed
qed

lemma batches_sizes:
  "b \<in> set (batches (processElements_from i xs)) \<Longrightarrow> 0 < length b \<and> length b \<le> batchSize"
proof (induction i xs rule: processElements_from.induct)
  case (1 i elements)
  show ?case
  proof (cases "i < length elements")
    case True
    with "1.prems" have "b = slice i (i + batchSize) elements
        \<or> b \<in> set (batches (processElements_from (i + batchSize) elements))"
      by (subst (asm) processElements_from.simps) (simp add: Let_def)
    then show ?thesis
    proof
      assume "b = slice i (i + batchSize) elements"
      then show ?thesis using True by (simp add: slice_def batchSize_def)
    next
      assume "b \<in> set (batches (processElements_from (i + batchSize) elements))"
      then show ?thesis using "1.IH" True by simp
    qed
  next
    case False
    with "1.prems" show ?thesis by (subst (asm) processElements_from.simps) simp
  qed
qed

lemma schedule_shape:
  "processElements_from i xs =
     concat (map (\<lambda>b. [Dispatch b, Delay 100]) (batches (processElements_from i xs)))"
proof (induction i xs rule: processElements_from.induct)
  case (1 i elements)
  show ?case
  proof (cases "i < length elements")
    case True
    then have e: "processElements_from i elements =
        Dispatch (slice i (i + batchSize) elements) # Delay 100
          # processElements_from (i + batchSize) elements"
      by (subst processElements_from.simps) (simp add: Let_def)
    show ?thesis
      using "1.IH"[OF True refl] by (subst (1 2) e) simp
  next
    case False
    then have "processElements_from i elements = []"
      by (subst processElements_from.simps) simp
    then show ?thesis by simp
  qed
qed

lemma batch_lengths:
  "map length (batches (processElements_from i xs)) =
     replicate ((length xs - i) div batchSize) batchSize
     @ (if (length xs - i) mod batchSize = 0 then [] else [(length xs - i) mod batchSize])"
proof (induction i xs rule: processElements_from.induct)
  case (1 i elements)
  let ?n = "length elements - i"
  show ?case
  proof (cases "i < length elements")
    case True
    then have e: "processElements_from i elements =
        Dispatch (slice i (i + batchSize) elements) # Delay 100
          # processElements_from (i + batchSize) elements"
      by (subst processElements_from.simps) (simp add: Let_def)
    have IH: "map length (batches (processElements_from (i + batchSize) elements)) =
        replicate ((?n - batchSize) div batchSize) batchSize
        @ (if (?n - batchSize) mod batchSize = 0 then [] else [(?n - batchSize) mod batchSize])"
      using "1.IH"[OF True refl] by (simp add: algebra_simps)
    have len: "length (slice i (i + batchSize) elements) = min batchSize ?n"
      by (simp add: slice_batch)
    show ?thesis
    proof (cases "batchSize \<le> ?n")
      case True
      then have d: "?n div batchSize = Suc ((?n - batchSize) div batchSize)"
        by (simp add: batchSize_def le_div_geq)
      have m: "?n mod batchSize = (?n - batchSize) mod batchSize"
        using True by (simp add: le_mod_geq)
      show ?thesis
        unfolding e using IH len True by (simp add: d m)
    next
      case False
      then have lt: "?n < batchSize" by simp
      have z: "(?n - batchSize) = 0" using lt by simp
      have pos: "0 < ?n" using True by simp
      show ?thesis
        unfolding e using IH len lt pos by (simp add: z)
    qed
  next
    case False
    then have "processElements_from i elements = []"
      by (subst processElements_from.simps) simp
    then show ?thesis using False by simp
  qed
qed


section \<open>Effects of the steps of analyzeElement\<close>

lemma update_element_fields [simp]:
  "analyzedTexts (update_element el f st) = analyzedTexts st"
  "processingElements (update_element el f st) = processingElements st"
  "processedElements (update_element el f st) = processedElements st"
  "analyzedCount (update_element el f st) = analyzedCount st"
  "blockedCount (update_element el f st) = blockedCount st"
  "cachedSettings (update_element el f st) = cachedSettings st"
  "indicator (update_element el f st) = indicator st"
  "sent_messages (update_element el f st) = sent_messages st"
  "in_flight (update_element el f st) = in_flight st"
  "dom (update_element el f st) = (dom st)(el := f (dom st el))"
  by (simp_all add: update_element_def)

lemma showDebugIndicator_fields [simp]:
  "analyzedTexts (showDebugIndicator s b st) = analyzedTexts st"
  "processingElements (showDebugIndicator s b st) = processingElements st"
  "processedElements (showDebugIndicator s b st) = processedElements st"
  "analyzedCount (showDebugIndicator s b st) = analyzedCount st"
  "blockedCount (showDebugIndicator s b st) = blockedCount st"
  "cachedSettings (showDebugIndicator s b st) = cachedSettings st"
  "sent_messages (showDebugIndicator s b st) = sent_messages st"
  "in_flight (showDebugIndicator s b st) = in_flight st"
  "dom (showDebugIndicator s b st) = dom st"
  by (simp_all add: showDebugIndicator_def)

lemma restore_fields [simp]:
  "analyzedTexts (restore H t st) = analyzedTexts st"
  "processingElements (restore H t st) = processingElements st"
  "processedElements (restore H t st) = processedElements st"
  "sent_messages (restore H t st) = sent_messages st"
  "in_flight (restore H t st) = in_flight st"
  "el \<noteq> task_element t \<Longrightarrow> dom (restore H t st) el = dom st el"
  by (simp_all add: restore_def)

lemma showBlockedContent_fields [simp]:
  "analyzedTexts (showBlockedContent H t st) = analyzedTexts st"
  "processingElements (showBlockedContent H t st) = processingElements st"
  "processedElements (showBlockedContent H t st) = processedElements st"
  "sent_messages (showBlockedContent H t st) = sent_messages st"
  "in_flight (showBlockedContent H t st) = in_flight st"
  "el \<noteq> task_element t \<Longrightarrow> dom (showBlockedContent H t st) el = dom st el"
  by (simp_all add: showBlockedContent_def Let_def)

lemma analyzeElement_catch_fields [simp]:
  "analyzedTexts (analyzeElement_catch H t e st) = analyzedTexts st"
  "processingElements (analyzeElement_catch H t e st) = processingElements st"
  "processedElements (analyzeElement_catch H t e st) = processedElements st"
  "sent_messages (analyzeElement_catch H t e st) = sent_messages st"
  "in_flight (analyzeElement_catch H t e st) = in_flight st"
  "el \<noteq> task_element t \<Longrightarrow> dom (analyzeElement_catch H t e st) el = dom st el"
  by (simp_all add: analyzeElement_catch_def Let_def)

lemma analyzeElement_resume_fields:
  "analyzedTexts (analyzeElement_resume H t outcome st) = analyzedTexts st"
  "sent_messages (analyzeElement_resume H t outcome st) = sent_messages st"
  "in_flight (analyzeElement_resume H t outcome st) = in_flight st"
  "processingElements (analyzeElement_resume H t outcome st) = processingElements st - {task_element t}"
  "el \<noteq> task_element t \<Longrightarrow> dom (analyzeElement_resume H t outcome st) el = dom st el"
  by (simp_all add: analyzeElement_resume_def Let_def split: sum.splits option.splits)





















section \<open>A known hash leaves the element as it is\<close>






section \<open>Batches on the page\<close>

lemma step_Analyze_in_flight:
  "\<exists>ts ms. in_flight (step H st (Analyze el)) = in_flight st @ ts
     \<and> sent_messages (step H st (Analyze el)) = sent_messages st @ ms
     \<and> length ts = length ms \<and> length ts \<le> 1 \<and> task_element ` set ts \<subseteq> {el}"
  by (simp add: step_def analyzeElement_start_def Let_def)

lemma start_batch_Cons: "start_batch H st (el # b) = start_batch H (step H st (Analyze el)) b"
  by (simp add: start_batch_def run_def)

lemma start_batch_Nil: "start_batch H st [] = st"
  by (simp add: start_batch_def run_def)

lemma start_batch_appends:
  "\<exists>ts ms. in_flight (start_batch H st b) = in_flight st @ ts
     \<and> sent_messages (start_batch H st b) = sent_messages st @ ms
     \<and> length ts = length ms \<and> length ts \<le> length b \<and> task_element ` set ts \<subseteq> set b"
proof (induction b arbitrary: st)
  case Nil
  show ?case by (simp add: start_batch_Nil)
next
  case (Cons el b)
  from step_Analyze_in_flight[of H st el] obtain ts1 ms1 where
    1: "in_flight (step H st (Analyze el)) = in_flight st @ ts1"
       "sent_messages (step H st (Analyze el)) = sent_messages st @ ms1"
       "length ts1 = length ms1" "length ts1 \<le> 1" "task_element ` set ts1 \<subseteq> {el}"
    by blast
  from Cons.IH[of "step H st (Analyze el)"] obtain ts2 ms2 where
    2: "in_flight (start_batch H (step H st (Analyze el)) b) = in_flight (step H st (Analyze el)) @ ts2"
       "sent_messages (start_batch H (step H st (Analyze el)) b) = sent_messages (step H st (Analyze el)) @ ms2"
       "length ts2 = length ms2" "length ts2 \<le> length b" "task_element ` set ts2 \<subseteq> set b"
    by blast
  have "in_flight (start_batch H st (el # b)) = in_flight st @ (ts1 @ ts2)"
    and "sent_messages (start_batch H st (el # b)) = sent_messages st @ (ms1 @ ms2)"
    and "length (ts1 @ ts2) = length (ms1 @ ms2)"
    and "length (ts1 @ ts2) \<le> length (el # b)"
    and "task_element ` set (ts1 @ ts2) \<subseteq> set (el # b)"
    using 1 2 by (auto simp: start_batch_Cons)
  then show ?case by blast
qed

lemma step_Analyze_new:
  assumes "MIN_TEXT_LENGTH \<le> length (getAllTextContent (dom st el))"
    and "hashText (getAllTextContent (dom st el)) \<notin> analyzedTexts st"
  shows "in_flight (step H st (Analyze el)) = in_flight st @ [task_of st el]"
    and "sent_messages (step H st (Analyze el)) = sent_messages st @ [message_of st el]"
    and "analyzedTexts (step H st (Analyze el))
           = insert (hashText (getAllTextContent (dom st el))) (analyzedTexts st)"
    and "\<And>x. x \<noteq> el \<Longrightarrow> dom (step H st (Analyze el)) x = dom st x"
  using assms
  by (simp_all add: step_def analyzeElement_start_def Let_def task_of_def message_of_def)

lemma start_batch_new_fragments:
  assumes "new_fragments st b"
  shows "in_flight (start_batch H st b) = in_flight st @ map (task_of st) b
       \<and> sent_messages (start_batch H st b) = sent_messages st @ map (message_of st) b"
  using assms
proof (induction b arbitrary: st)
  case Nil
  show ?case by (simp add: start_batch_Nil)
next
  case (Cons el b)
  let ?st1 = "step H st (Analyze el)"
  let ?h = "\<lambda>st el. hashText (getAllTextContent (dom st el))"
  from Cons.prems have el: "MIN_TEXT_LENGTH \<le> length (getAllTextContent (dom st el))"
      "?h st el \<notin> analyzedTexts st"
    and d: "distinct (map (?h st) b)" "?h st el \<notin> set (map (?h st) b)"
    and r: "\<forall>x\<in>set b. MIN_TEXT_LENGTH \<le> length (getAllTextContent (dom st x))
              \<and> ?h st x \<notin> analyzedTexts st"
    by (simp_all add: new_fragments_def)
  note s = step_Analyze_new[OF el, where H = H]
  have ne: "x \<noteq> el" if "x \<in> set b" for x using d(2) that by auto
  have same: "dom ?st1 x = dom st x" if "x \<in> set b" for x using s(4) ne that by simp
  have m1: "map (?h ?st1) b = map (?h st) b" using same by simp
  have m2: "map (task_of ?st1) b = map (task_of st) b" using same by (simp add: task_of_def)
  have m3: "map (message_of ?st1) b = map (message_of st) b" using same by (simp add: message_of_def)
  have hne: "?h st x \<noteq> ?h st el" if "x \<in> set b" for x
  proof
    assume e: "?h st x = ?h st el"
    have "?h st x \<in> set (map (?h st) b)" using that by simp
    with e d(2) show False by simp
  qed
  have "new_fragments ?st1 b"
    unfolding new_fragments_def m1 using d(1) r same s(3) hne by simp
  from Cons.IH[OF this] show ?case
    by (simp add: start_batch_Cons s(1,2) m2 m3)
qed

lemma step_Answer_filter:
  "length (filter P (in_flight (step H st (Answer i outcome)))) \<le> length (filter P (in_flight st))"
proof (cases "i < length (in_flight st)")
  case True
  have "in_flight st = take i (in_flight st) @ in_flight st ! i # drop (Suc i) (in_flight st)"
    using True by (rule id_take_nth_drop)
  then have "length (filter P (in_flight st))
      = length (filter P (take i (in_flight st) @ in_flight st ! i # drop (Suc i) (in_flight st)))"
    by simp
  then show ?thesis using True by (simp add: step_def analyzeElement_resume_fields)
next
  case False
  then show ?thesis by (simp add: step_def)
qed

lemma settle_filter:
  "length (filter P (in_flight (settle H st as))) \<le> length (filter P (in_flight st))"
proof (induction as arbitrary: st)
  case Nil
  show ?case by (simp add: settle_def run_def)
next
  case (Cons a as)
  obtain i outcome where a: "a = (i, outcome)" by (cases a)
  have "settle H st (a # as) = settle H (step H st (Answer i outcome)) as"
    by (simp add: settle_def run_def a)
  then show ?case
    using Cons.IH[of "step H st (Answer i outcome)"] step_Answer_filter[of P H st i outcome]
    by simp
qed

lemma settle_length: "length (in_flight (settle H st as)) \<le> length (in_flight st)"
  using settle_filter[of "\<lambda>t. True" H st as] by simp

lemma settled_length:
  assumes "in_flight started = in_flight st @ ts"
    and "batch_settled ts (settle H started as)"
  shows "length (in_flight (settle H started as)) \<le> length (in_flight st)"
proof -
  let ?P = "\<lambda>t. t \<notin> set ts"
  have "filter ?P (in_flight (settle H started as)) = in_flight (settle H started as)"
    using assms(2) by (auto simp: batch_settled_def filter_id_conv)
  then have "length (in_flight (settle H started as))
      = length (filter ?P (in_flight (settle H started as)))" by simp
  also have "\<dots> \<le> length (filter ?P (in_flight started))" by (rule settle_filter)
  also have "\<dots> = length (filter ?P (in_flight st))" by (simp add: assms(1))
  also have "\<dots> \<le> length (in_flight st)" by simp
  finally show ?thesis .
qed


lemma run_schedule_batches:
  "map d_batch (run_schedule H st c sched rounds)
     = take (length (run_schedule H st c sched rounds)) (batches sched)"
  by (induction H st c sched rounds rule: run_schedule.induct) (simp_all add: Let_def)

lemma run_schedule_Dispatch:
  "run_schedule H st c (Dispatch b # sched) rounds =
     Dispatched b c st (start_batch H st b)
       (settle H (start_batch H st b) (case rounds of [] \<Rightarrow> [] | as # rest \<Rightarrow> as))
     # (if batch_settled (batch_tasks st (start_batch H st b))
             (settle H (start_batch H st b) (case rounds of [] \<Rightarrow> [] | as # rest \<Rightarrow> as))
        then run_schedule H
               (settle H (start_batch H st b) (case rounds of [] \<Rightarrow> [] | as # rest \<Rightarrow> as))
               c sched (tl rounds)
        else [])"
  by (simp add: Let_def)

lemma run_schedule_clock:
  "k < length (run_schedule H st c (concat (map (\<lambda>b. [Dispatch b, Delay ms]) bs)) rounds) \<Longrightarrow>
   d_clock (run_schedule H st c (concat (map (\<lambda>b. [Dispatch b, Delay ms]) bs)) rounds ! k)
     = c + ms * k"
proof (induction bs arbitrary: st c rounds k)
  case Nil
  then show ?case by simp
next
  case (Cons b bs)
  show ?case
  proof (cases k)
    case 0
    then show ?thesis by (simp add: Let_def)
  next
    case (Suc j)
    with Cons.prems show ?thesis
      using Cons.IH[of j] by (simp add: Let_def split: if_splits)
  qed
qed

lemma run_schedule_entries:
  "d \<in> set (run_schedule H st c sched rounds) \<Longrightarrow>
   d_started d = start_batch H (d_before d) (d_batch d)
   \<and> (\<exists>as. d_after d = settle H (d_started d) as)"
proof (induction H st c sched rounds rule: run_schedule.induct)
  case (3 H st clock batch sched rounds)
  from "3.prems" show ?case
    unfolding run_schedule_Dispatch
    using "3.IH"[OF refl refl] by (auto split: if_splits)
qed auto

lemma run_schedule_first:
  "run_schedule H st c sched rounds \<noteq> [] \<Longrightarrow> d_before (run_schedule H st c sched rounds ! 0) = st"
  by (induction H st c sched rounds rule: run_schedule.induct) (simp_all add: Let_def)

lemma run_schedule_next:
  "Suc k < length (run_schedule H st c sched rounds) \<Longrightarrow>
   d_before (run_schedule H st c sched rounds ! Suc k) = d_after (run_schedule H st c sched rounds ! k)
   \<and> batch_settled
        (batch_tasks (d_before (run_schedule H st c sched rounds ! k))
           (d_started (run_schedule H st c sched rounds ! k)))
        (d_after (run_schedule H st c sched rounds ! k))"
proof (induction H st c sched rounds arbitrary: k rule: run_schedule.induct)
  case (3 H st clock batch sched rounds)
  let ?started = "start_batch H st batch"
  let ?after = "settle H ?started (case rounds of [] \<Rightarrow> [] | as # rest \<Rightarrow> as)"
  from "3.prems" have settled: "batch_settled (batch_tasks st ?started) ?after"
    unfolding run_schedule_Dispatch by (simp split: if_splits)
  show ?case
  proof (cases k)
    case 0
    have ne: "run_schedule H ?after clock sched (tl rounds) \<noteq> []"
      using "3.prems" settled 0 unfolding run_schedule_Dispatch by auto
    show ?thesis
      unfolding run_schedule_Dispatch 0 using settled run_schedule_first[OF ne] by simp
  next
    case (Suc j)
    have "Suc j < length (run_schedule H ?after clock sched (tl rounds))"
      using "3.prems" settled Suc unfolding run_schedule_Dispatch by simp
    from "3.IH"[OF refl refl settled this] show ?thesis
      unfolding run_schedule_Dispatch Suc using settled by simp
  qed
qed simp_all

lemma run_schedule_in_flight:
  assumes "\<forall>b\<in>set (batches sched). length b \<le> n"
    and "d \<in> set (run_schedule H st c sched rounds)"
  shows "length (in_flight (d_before d)) \<le> length (in_flight st)
       \<and> length (in_flight (d_started d)) \<le> length (in_flight st) + n
       \<and> length (in_flight (d_after d)) \<le> length (in_flight st) + n"
  using assms
proof (induction H st c sched rounds rule: run_schedule.induct)
  case (3 H st clock batch sched rounds)
  let ?started = "start_batch H st batch"
  let ?as = "case rounds of [] \<Rightarrow> [] | as # rest \<Rightarrow> as"
  let ?after = "settle H ?started ?as"
  from start_batch_appends[of H st batch] obtain ts where
    ts: "in_flight ?started = in_flight st @ ts" "length ts \<le> length batch"
    by blast
  have bt: "batch_tasks st ?started = ts" by (simp add: batch_tasks_def ts(1))
  have n: "length batch \<le> n" using "3.prems"(1) by simp
  have s: "length (in_flight ?started) \<le> length (in_flight st) + n"
    using ts n by simp
  have a: "length (in_flight ?after) \<le> length (in_flight st) + n"
    using settle_length[of H ?started ?as] s by linarith
  from "3.prems"(2) consider "d = Dispatched batch clock st ?started ?after"
    | "batch_settled (batch_tasks st ?started) ?after"
      "d \<in> set (run_schedule H ?after clock sched (tl rounds))"
    unfolding run_schedule_Dispatch by (auto split: if_splits)
  then show ?case
  proof cases
    case 1
    then show ?thesis using s a by simp
  next
    case 2
    have le: "length (in_flight ?after) \<le> length (in_flight st)"
      using settled_length[OF ts(1)] 2(1) unfolding bt by simp
    have "\<forall>b\<in>set (batches sched). length b \<le> n" using "3.prems"(1) by simp
    from "3.IH"[OF refl refl 2(1) this 2(2)] le show ?thesis by linarith
  qed
qed simp_all

lemma start_batch_new_fragments_more:
  assumes "new_fragments st b"
  shows "analyzedTexts (start_batch H st b)
           = analyzedTexts st \<union> (\<lambda>el. hashText (getAllTextContent (dom st el))) ` set b
       \<and> (\<forall>x. x \<notin> set b \<longrightarrow> dom (start_batch H st b) x = dom st x)"
  using assms
proof (induction b arbitrary: st)
  case Nil
  show ?case by (simp add: start_batch_Nil)
next
  case (Cons el b)
  let ?st1 = "step H st (Analyze el)"
  let ?h = "\<lambda>st el. hashText (getAllTextContent (dom st el))"
  from Cons.prems have el: "MIN_TEXT_LENGTH \<le> length (getAllTextContent (dom st el))"
      "?h st el \<notin> analyzedTexts st"
    and d: "distinct (map (?h st) b)" "?h st el \<notin> set (map (?h st) b)"
    and r: "\<forall>x\<in>set b. MIN_TEXT_LENGTH \<le> length (getAllTextContent (dom st x))
              \<and> ?h st x \<notin> analyzedTexts st"
    by (simp_all add: new_fragments_def)
  note s = step_Analyze_new[OF el, where H = H]
  have hne: "?h st x \<noteq> ?h st el" if "x \<in> set b" for x
  proof
    assume e: "?h st x = ?h st el"
    have "?h st x \<in> set (map (?h st) b)" using that by simp
    with e d(2) show False by simp
  qed
  have ne: "x \<noteq> el" if "x \<in> set b" for x using hne[OF that] by auto
  have same: "dom ?st1 x = dom st x" if "x \<in> set b" for x using s(4) ne that by simp
  have m1: "map (?h ?st1) b = map (?h st) b" using same by simp
  have i1: "?h ?st1 ` set b = ?h st ` set b" using same by (simp cong: image_cong)
  have "new_fragments ?st1 b"
    unfolding new_fragments_def m1 using d(1) r same s(3) hne by simp
  from Cons.IH[OF this] have
    IH: "analyzedTexts (start_batch H ?st1 b) = analyzedTexts ?st1 \<union> ?h ?st1 ` set b"
        "\<And>x. x \<notin> set b \<Longrightarrow> dom (start_batch H ?st1 b) x = dom ?st1 x"
    by simp_all
  show ?case
  proof (intro conjI allI impI)
    show "analyzedTexts (start_batch H st (el # b)) = analyzedTexts st \<union> ?h st ` set (el # b)"
      unfolding start_batch_Cons IH(1) i1 s(3) by simp
    show "dom (start_batch H st (el # b)) x = dom st x" if "x \<notin> set (el # b)" for x
      unfolding start_batch_Cons using IH(2)[of x] s(4)[of x] that by simp
  qed
qed

lemma step_Answer_fields:
  "analyzedTexts (step H st (Answer i outcome)) = analyzedTexts st"
  "sent_messages (step H st (Answer i outcome)) = sent_messages st"
  "set (in_flight (step H st (Answer i outcome))) \<subseteq> set (in_flight st)"
  "x \<notin> task_element ` set (in_flight st) \<Longrightarrow> dom (step H st (Answer i outcome)) x = dom st x"
proof -
  show "analyzedTexts (step H st (Answer i outcome)) = analyzedTexts st"
    and "sent_messages (step H st (Answer i outcome)) = sent_messages st"
    by (simp_all add: step_def analyzeElement_resume_fields)
  show "set (in_flight (step H st (Answer i outcome))) \<subseteq> set (in_flight st)"
    using set_take_subset[of i "in_flight st"] set_drop_subset[of "Suc i" "in_flight st"]
    by (auto simp: step_def analyzeElement_resume_fields)
  show "dom (step H st (Answer i outcome)) x = dom st x"
    if "x \<notin> task_element ` set (in_flight st)"
  proof (cases "i < length (in_flight st)")
    case True
    then have "x \<noteq> task_element (in_flight st ! i)" using that by auto
    then show ?thesis using True by (simp add: step_def analyzeElement_resume_fields)
  next
    case False
    then show ?thesis by (simp add: step_def)
  qed
qed

lemma settle_Cons: "settle H st ((i, outcome) # as) = settle H (step H st (Answer i outcome)) as"
  by (simp add: settle_def run_def)

lemma settle_Nil: "settle H st [] = st"
  by (simp add: settle_def run_def)

lemma settle_fields:
  "analyzedTexts (settle H st as) = analyzedTexts st
   \<and> sent_messages (settle H st as) = sent_messages st
   \<and> (\<forall>x. x \<notin> task_element ` set (in_flight st) \<longrightarrow> dom (settle H st as) x = dom st x)"
proof (induction as arbitrary: st)
  case Nil
  show ?case by (simp add: settle_Nil)
next
  case (Cons a as)
  obtain i outcome where a: "a = (i, outcome)" by (cases a)
  let ?st1 = "step H st (Answer i outcome)"
  note f = step_Answer_fields[where H = H and st = st and i = i and outcome = outcome]
  have sub: "task_element ` set (in_flight ?st1) \<subseteq> task_element ` set (in_flight st)"
    using f(3) by blast
  from Cons.IH[of ?st1] have
    IH: "analyzedTexts (settle H ?st1 as) = analyzedTexts ?st1"
        "sent_messages (settle H ?st1 as) = sent_messages ?st1"
        "\<And>x. x \<notin> task_element ` set (in_flight ?st1) \<Longrightarrow> dom (settle H ?st1 as) x = dom ?st1 x"
    by simp_all
  show ?case
  proof (intro conjI allI impI)
    show "analyzedTexts (settle H st (a # as)) = analyzedTexts st"
      unfolding a settle_Cons IH(1) f(1) ..
    show "sent_messages (settle H st (a # as)) = sent_messages st"
      unfolding a settle_Cons IH(2) f(2) ..
    show "dom (settle H st (a # as)) x = dom st x"
      if n: "x \<notin> task_element ` set (in_flight st)" for x
    proof -
      have "x \<notin> task_element ` set (in_flight ?st1)" using n sub by blast
      then have "dom (settle H ?st1 as) x = dom ?st1 x" by (rule IH(3))
      also have "\<dots> = dom st x" using n by (rule f(4))
      finally show ?thesis unfolding a settle_Cons .
    qed
  qed
qed

lemma step_Answer_first: "in_flight (step H st (Answer 0 outcome)) = drop 1 (in_flight st)"
  by (cases "in_flight st") (simp_all add: step_def analyzeElement_resume_fields)

lemma settle_answer_all:
  "in_flight (settle H st (answer_all outcome b)) = drop (length b) (in_flight st)"
proof (induction b arbitrary: st)
  case Nil
  show ?case by (simp add: answer_all_def settle_Nil)
next
  case (Cons el b)
  have "settle H st (answer_all outcome (el # b))
      = settle H (step H st (Answer 0 outcome)) (answer_all outcome b)"
    by (simp add: answer_all_def settle_Cons)
  then show ?case
    using Cons.IH[of "step H st (Answer 0 outcome)"] by (simp add: step_Answer_first)
qed

lemma new_fragments_append:
  assumes "new_fragments st (b @ r)"
  shows "new_fragments st b" and "new_fragments st r"
    and "\<And>x. x \<in> set r \<Longrightarrow> x \<notin> set b"
    and "\<And>x. x \<in> set r \<Longrightarrow> hashText (getAllTextContent (dom st x))
            \<notin> (\<lambda>el. hashText (getAllTextContent (dom st el))) ` set b"
  using assms by (auto simp: new_fragments_def)

lemma round_answered:
  assumes nf: "new_fragments st (b @ r)" and inf: "in_flight st = []"
  shows "in_flight (start_batch H st b) = map (task_of st) b"
    and "batch_tasks st (start_batch H st b) = map (task_of st) b"
    and "in_flight (settle H (start_batch H st b) (answer_all outcome b)) = []"
    and "batch_settled (batch_tasks st (start_batch H st b))
           (settle H (start_batch H st b) (answer_all outcome b))"
    and "new_fragments (settle H (start_batch H st b) (answer_all outcome b)) r"
proof -
  let ?h = "\<lambda>st el. hashText (getAllTextContent (dom st el))"
  let ?started = "start_batch H st b"
  let ?after = "settle H ?started (answer_all outcome b)"
  note a = new_fragments_append[OF nf]
  show 1: "in_flight ?started = map (task_of st) b"
    using start_batch_new_fragments[OF a(1), where H = H] inf by simp
  show "batch_tasks st ?started = map (task_of st) b"
    by (simp add: batch_tasks_def 1 inf)
  show 3: "in_flight ?after = []"
    by (simp add: settle_answer_all 1)
  show "batch_settled (batch_tasks st ?started) ?after"
    by (simp add: batch_settled_def 3)
  have te: "task_element ` set (in_flight ?started) = set b"
    unfolding 1 by (force simp: task_of_def)
  have same: "dom ?after x = dom st x" if "x \<in> set r" for x
  proof -
    have nb: "x \<notin> set b" using a(3) that by simp
    have "dom ?after x = dom ?started x"
      using settle_fields[of H ?started "answer_all outcome b"] nb te by simp
    also have "\<dots> = dom st x"
      using start_batch_new_fragments_more[OF a(1), where H = H] nb by simp
    finally show ?thesis .
  qed
  have at: "analyzedTexts ?after = analyzedTexts st \<union> ?h st ` set b"
    using settle_fields[of H ?started "answer_all outcome b"]
      start_batch_new_fragments_more[OF a(1), where H = H] by simp
  have m: "map (?h ?after) r = map (?h st) r" using same by simp
  show "new_fragments ?after r"
    unfolding new_fragments_def m using a(2) a(4) same at
    by (auto simp: new_fragments_def)
qed

lemma run_schedule_answered:
  assumes "new_fragments st (concat bs)" and "in_flight st = []"
  shows "map d_batch (run_schedule H st c (concat (map (\<lambda>b. [Dispatch b, Delay ms]) bs))
            (map (answer_all outcome) bs)) = bs
       \<and> (\<forall>d\<in>set (run_schedule H st c (concat (map (\<lambda>b. [Dispatch b, Delay ms]) bs))
            (map (answer_all outcome) bs)).
            map task_element (in_flight (d_started d)) = d_batch d \<and> in_flight (d_after d) = [])"
  using assms
proof (induction bs arbitrary: st c)
  case Nil
  show ?case by simp
next
  case (Cons b bs)
  let ?started = "start_batch H st b"
  let ?after = "settle H ?started (answer_all outcome b)"
  have nf: "new_fragments st (b @ concat bs)" using Cons.prems(1) by simp
  note r = round_answered[OF nf Cons.prems(2)]
  have te: "map task_element (in_flight ?started) = b"
    unfolding r(1) by (simp add: task_of_def comp_def)
  have e: "run_schedule H st c (concat (map (\<lambda>b. [Dispatch b, Delay ms]) (b # bs)))
            (map (answer_all outcome) (b # bs))
      = Dispatched b c st ?started ?after
        # run_schedule H ?after (c + ms) (concat (map (\<lambda>b. [Dispatch b, Delay ms]) bs))
            (map (answer_all outcome) bs)"
    using r(4) by (simp add: Let_def)
  show ?case
    unfolding e using Cons.IH[OF r(5) r(3), where c = "c + ms"] te r(3) by simp
qed

lemma run_schedule_unanswered:
  assumes "new_fragments st (b @ r)" and "in_flight st = []" and "b \<noteq> []"
  shows "run_schedule H st c (Dispatch b # sched) []
           = [Dispatched b c st (start_batch H st b) (start_batch H st b)]"
proof -
  note r = round_answered[OF assms(1,2)]
  have "task_of st (hd b) \<in> set (map (task_of st) b)" using assms(3) by simp
  then have "\<not> batch_settled (batch_tasks st (start_batch H st b)) (start_batch H st b)"
    unfolding r(1) r(2) batch_settled_def by blast
  then show ?thesis by (simp add: Let_def settle_Nil)
qed


text \<open>
  Claim C7. \<open>processElements\<close> dispatches the elements in consecutive batches \<open>B\<close>: the
  batches in order make up the list, each has at least one and at most 5 elements, all but
  possibly the last have exactly 5, and the loop is one \<open>Promise.all\<close> per batch, each
  followed by a timer of 100 ms; twelve elements give batches of sizes 5, 5 and 2.

  The elements of one batch are classified concurrently: all calls of \<open>analyzeElement\<close> for
  the batch run to their \<open>await\<close> before any answer is handled, so that on any page the
  batch adds at most 5 suspended analyses with one message each, and for a batch of new
  fragments exactly one suspended analysis and one message per element, in the order of the
  batch.

  On the page, whatever answers arrive (\<open>D\<close>, the passages of the loop for the rounds of
  answers \<open>rounds\<close>): the batches are taken in order; before the \<open>k\<close>-th batch (from 0) the
  timers awaited add up to \<open>100 * k\<close> ms; a batch starts from the page that the answers
  to the batch before it left, and only when every analysis of that batch has returned; so
  at most 5 analyses are suspended beyond those suspended at the beginning. While no answer
  has arrived only the first batch is dispatched. When the elements are new fragments and
  every request is answered (\<open>A\<close>), every batch is dispatched, the suspended analyses after
  starting a batch are exactly those of its elements, and none is left after its answers.
\<close>

theorem processElements_batches:
  assumes "B = batches (processElements elements)"
    and "D = processElements_run H st elements rounds"
    and "A = processElements_run H st elements (map (answer_all outcome) B)"
  shows "concat B = elements
   \<and> (\<forall>b\<in>set B. 0 < length b \<and> length b \<le> 5)
   \<and> map length B =
       replicate (length elements div 5) 5
       @ (if length elements mod 5 = 0 then [] else [length elements mod 5])
   \<and> processElements elements = concat (map (\<lambda>b. [Dispatch b, Delay 100]) B)
   \<and> (length elements = 12 \<longrightarrow> map length B = [5, 5, 2])
   \<and> (\<forall>b\<in>set B. \<forall>p.
        (\<exists>ts ms. in_flight (start_batch H p b) = in_flight p @ ts
           \<and> sent_messages (start_batch H p b) = sent_messages p @ ms
           \<and> length ts = length ms \<and> length ts \<le> 5 \<and> task_element ` set ts \<subseteq> set b)
        \<and> (new_fragments p b \<longrightarrow>
             in_flight (start_batch H p b) = in_flight p @ map (task_of p) b
             \<and> sent_messages (start_batch H p b) = sent_messages p @ map (message_of p) b))
   \<and> map d_batch D = take (length D) B
   \<and> (\<forall>k<length D.
        d_clock (D ! k) = 100 * k
        \<and> d_before (D ! k) = (if k = 0 then st else d_after (D ! (k - 1)))
        \<and> d_started (D ! k) = start_batch H (d_before (D ! k)) (d_batch (D ! k))
        \<and> (\<exists>as. d_after (D ! k) = settle H (d_started (D ! k)) as)
        \<and> (Suc k < length D \<longrightarrow>
             batch_settled (batch_tasks (d_before (D ! k)) (d_started (D ! k))) (d_after (D ! k)))
        \<and> length (in_flight (d_started (D ! k))) \<le> length (in_flight st) + 5)
   \<and> (new_fragments st elements \<and> in_flight st = [] \<longrightarrow>
        map d_batch (processElements_run H st elements []) = take 1 B
        \<and> map d_batch A = B
        \<and> (\<forall>d\<in>set A. map task_element (in_flight (d_started d)) = d_batch d
              \<and> in_flight (d_after d) = []))"
proof -
  have c: "concat B = elements"
    by (simp add: assms(1) processElements_def batches_concat)
  have sz: "0 < length b \<and> length b \<le> 5" if "b \<in> set B" for b
    using batches_sizes[of b 0 elements] that by (simp add: assms(1) processElements_def batchSize_def)
  have l: "map length B =
       replicate (length elements div 5) 5
       @ (if length elements mod 5 = 0 then [] else [length elements mod 5])"
    using batch_lengths[of 0 elements] by (simp add: assms(1) processElements_def batchSize_def)
  have sh: "processElements elements = concat (map (\<lambda>b. [Dispatch b, Delay 100]) B)"
    unfolding assms(1) processElements_def by (rule schedule_shape)
  have twelve: "map length B = [5, 5, 2]" if "length elements = 12"
  proof -
    have "replicate 2 (5::nat) = [5, 5]" by (simp add: numeral_2_eq_2)
    then show ?thesis using l that by simp
  qed
  have start: "(\<exists>ts ms. in_flight (start_batch H p b) = in_flight p @ ts
           \<and> sent_messages (start_batch H p b) = sent_messages p @ ms
           \<and> length ts = length ms \<and> length ts \<le> 5 \<and> task_element ` set ts \<subseteq> set b)
        \<and> (new_fragments p b \<longrightarrow>
             in_flight (start_batch H p b) = in_flight p @ map (task_of p) b
             \<and> sent_messages (start_batch H p b) = sent_messages p @ map (message_of p) b)"
    if "b \<in> set B" for b p
  proof
    from start_batch_appends[of H p b] obtain ts ms where
      "in_flight (start_batch H p b) = in_flight p @ ts"
      "sent_messages (start_batch H p b) = sent_messages p @ ms"
      "length ts = length ms" "length ts \<le> length b" "task_element ` set ts \<subseteq> set b"
      by blast
    moreover have "length b \<le> 5" using sz[OF that] by simp
    ultimately show "\<exists>ts ms. in_flight (start_batch H p b) = in_flight p @ ts
           \<and> sent_messages (start_batch H p b) = sent_messages p @ ms
           \<and> length ts = length ms \<and> length ts \<le> 5 \<and> task_element ` set ts \<subseteq> set b"
      by (metis le_trans)
    show "new_fragments p b \<longrightarrow>
             in_flight (start_batch H p b) = in_flight p @ map (task_of p) b
             \<and> sent_messages (start_batch H p b) = sent_messages p @ map (message_of p) b"
      using start_batch_new_fragments[of p b H] by blast
  qed
  have D: "D = run_schedule H st 0 (concat (map (\<lambda>b. [Dispatch b, Delay 100]) B)) rounds"
    unfolding assms(2) processElements_run_def using sh by simp
  have bs: "batches (concat (map (\<lambda>b. [Dispatch b, Delay 100]) B)) = B"
    using sh assms(1) by simp
  have order: "map d_batch D = take (length D) B"
    unfolding D using run_schedule_batches[of H st 0 "concat (map (\<lambda>b. [Dispatch b, Delay 100]) B)" rounds]
    unfolding bs .
  have passage: "d_clock (D ! k) = 100 * k
        \<and> d_before (D ! k) = (if k = 0 then st else d_after (D ! (k - 1)))
        \<and> d_started (D ! k) = start_batch H (d_before (D ! k)) (d_batch (D ! k))
        \<and> (\<exists>as. d_after (D ! k) = settle H (d_started (D ! k)) as)
        \<and> (Suc k < length D \<longrightarrow>
             batch_settled (batch_tasks (d_before (D ! k)) (d_started (D ! k))) (d_after (D ! k)))
        \<and> length (in_flight (d_started (D ! k))) \<le> length (in_flight st) + 5"
    if k: "k < length D" for k
  proof (intro conjI impI)
    have mem: "D ! k \<in> set D" using k by simp
    show "d_clock (D ! k) = 100 * k"
      using run_schedule_clock[of k H st 0 100 B rounds] k unfolding D by simp
    show "d_before (D ! k) = (if k = 0 then st else d_after (D ! (k - 1)))"
    proof (cases k)
      case 0
      have "D \<noteq> []" using k by auto
      then show ?thesis
        unfolding 0 D using run_schedule_first[of H st 0 _ rounds] by simp
    next
      case (Suc j)
      then have "Suc j < length D" using k by simp
      then show ?thesis
        unfolding Suc D using run_schedule_next[of j H st 0 _ rounds] by simp
    qed
    show "d_started (D ! k) = start_batch H (d_before (D ! k)) (d_batch (D ! k))"
      and "\<exists>as. d_after (D ! k) = settle H (d_started (D ! k)) as"
      using run_schedule_entries[of "D ! k" H st 0 _ rounds] mem unfolding D by blast+
    show "batch_settled (batch_tasks (d_before (D ! k)) (d_started (D ! k))) (d_after (D ! k))"
      if "Suc k < length D"
      using that run_schedule_next[of k H st 0 _ rounds] unfolding D by blast
    have "\<forall>b\<in>set (batches (concat (map (\<lambda>b. [Dispatch b, Delay 100]) B))). length b \<le> 5"
      unfolding bs using sz by simp
    from run_schedule_in_flight[OF this, of "D ! k" H st 0 rounds] mem
    show "length (in_flight (d_started (D ! k))) \<le> length (in_flight st) + 5"
      unfolding D by blast
  qed
  have answered: "map d_batch (processElements_run H st elements []) = take 1 B
        \<and> map d_batch A = B
        \<and> (\<forall>d\<in>set A. map task_element (in_flight (d_started d)) = d_batch d
              \<and> in_flight (d_after d) = [])"
    if nf: "new_fragments st elements" and inf: "in_flight st = []"
  proof
    show "map d_batch (processElements_run H st elements []) = take 1 B"
    proof (cases B)
      case Nil
      then show ?thesis unfolding processElements_run_def using sh by simp
    next
      case (Cons b bs)
      have b: "b \<noteq> []" using sz[of b] Cons by auto
      have "new_fragments st (b @ concat bs)" using nf c Cons by simp
      from run_schedule_unanswered[OF this inf b, of H 0] show ?thesis
        unfolding processElements_run_def using sh Cons by simp
    qed
    have "new_fragments st (concat B)" using nf c by simp
    from run_schedule_answered[OF this inf, of H 0 100 outcome]
    show "map d_batch A = B
        \<and> (\<forall>d\<in>set A. map task_element (in_flight (d_started d)) = d_batch d
              \<and> in_flight (d_after d) = [])"
      unfolding assms(3) processElements_run_def using sh by simp
  qed
  show ?thesis
    using c sz l sh twelve start order passage answered by blast
qed


text \<open>
  Twelve new fragments on a page just loaded: batches of 5, 5 and 2; with every request
  answered the three batches are dispatched after 0, 100 and 200 ms of timers, and the
  analyses suspended after each start are those of the batch; with no answer only the
  first batch is dispatched.
\<close>

theorem processElements_batches_witness:
  "new_fragments (initial_page numbered_dom None) [1, 2, 3, 4, 5, 6, 7, 8, 9, 10, 11, 12]
   \<and> in_flight (initial_page numbered_dom None) = []
   \<and> batches (processElements [1, 2, 3, 4, 5, 6, 7, 8, 9, 10, 11, 12])
       = [[1, 2, 3, 4, 5], [6, 7, 8, 9, 10], [11, 12]]
   \<and> map d_batch (processElements_run (strip_tags False) (initial_page numbered_dom None)
        [1, 2, 3, 4, 5, 6, 7, 8, 9, 10, 11, 12]
        (map (answer_all (snd answer_allow)) [[1, 2, 3, 4, 5], [6, 7, 8, 9, 10], [11, 12]]))
       = [[1, 2, 3, 4, 5], [6, 7, 8, 9, 10], [11, 12]]
   \<and> map d_clock (processElements_run (strip_tags False) (initial_page numbered_dom None)
        [1, 2, 3, 4, 5, 6, 7, 8, 9, 10, 11, 12]
        (map (answer_all (snd answer_allow)) [[1, 2, 3, 4, 5], [6, 7, 8, 9, 10], [11, 12]]))
       = [0, 100, 200]
   \<and> map (\<lambda>d. map task_element (in_flight (d_started d)))
        (processElements_run (strip_tags False) (initial_page numbered_dom None)
        [1, 2, 3, 4, 5, 6, 7, 8, 9, 10, 11, 12]
        (map (answer_all (snd answer_allow)) [[1, 2, 3, 4, 5], [6, 7, 8, 9, 10], [11, 12]]))
       = [[1, 2, 3, 4, 5], [6, 7, 8, 9, 10], [11, 12]]
   \<and> map d_batch (processElements_run (strip_tags False) (initial_page numbered_dom None)
        [1, 2, 3, 4, 5, 6, 7, 8, 9, 10, 11, 12] [])
       = [[1, 2, 3, 4, 5]]"
proof -
  let ?st = "initial_page numbered_dom None"
  let ?els = "[1, 2, 3, 4, 5, 6, 7, 8, 9, 10, 11, 12] :: elem list"
  let ?B = "[[1, 2, 3, 4, 5], [6, 7, 8, 9, 10], [11, 12]] :: elem list list"
  let ?A = "processElements_run (strip_tags False) ?st ?els (map (answer_all (snd answer_allow)) ?B)"
  have s: "processElements ?els =
     [Dispatch [1, 2, 3, 4, 5], Delay 100, Dispatch [6, 7, 8, 9, 10], Delay 100,
      Dispatch [11, 12], Delay 100]"
    by code_simp
  have B: "batches (processElements ?els) = ?B"
    unfolding s by simp
  have nf: "new_fragments ?st ?els"
    by (simp add: new_fragments_def initial_page_def numbered_dom_def sample_element_def
        getAllTextContent_def trim_def isWhiteSpace_def utf16_def MIN_TEXT_LENGTH_def hash_eval)
  have inf: "in_flight ?st = []"
    by (simp add: initial_page_def)
  note T = processElements_batches[OF B[symmetric] refl refl,
      where H = "strip_tags False" and st = ?st and outcome = "snd answer_allow"
        and rounds = "map (answer_all (snd answer_allow)) ?B"]
  from T nf inf have a: "map d_batch ?A = ?B"
    and f: "\<forall>d\<in>set ?A. map task_element (in_flight (d_started d)) = d_batch d"
    and u: "map d_batch (processElements_run (strip_tags False) ?st ?els []) = take 1 ?B"
    by blast+
  from T have k: "\<forall>k<length ?A. d_clock (?A ! k) = 100 * k"
    by blast
  have len: "length ?A = 3"
    using a by (metis length_map length_Cons list.size(3) numeral_3_eq_3)
  have fl: "map (\<lambda>d. map task_element (in_flight (d_started d))) ?A = map d_batch ?A"
    using f by simp
  have "map d_clock ?A = map (\<lambda>k. 100 * k) [0..<length ?A]"
  proof (rule nth_equalityI)
    show "length (map d_clock ?A) = length (map (\<lambda>k. 100 * k) [0..<length ?A])" by simp
    fix i
    assume "i < length (map d_clock ?A)"
    then show "map d_clock ?A ! i = map (\<lambda>k. 100 * k) [0..<length ?A] ! i"
      using k by simp
  qed
  also have "\<dots> = [0, 100, 200]"
    unfolding len by (simp add: upt_rec)
  finally have cl: "map d_clock ?A = [0, 100, 200]" .
  show ?thesis
    using nf inf B a cl fl u by simp
qed


end
